theory Spec2Isabelle
  imports Complex_Main
begin

section \<open>Memory, dimensions and counted loops\<close>

text \<open>
  The kernels work on raw buffers through pointers and strides. A buffer is a function
  from element addresses to values; a pointer is an element address. Strides
  (\<open>inc_t\<close>) are signed, so addresses are integers. Dimensions (\<open>dim_t\<close>) are
  natural numbers. The three \<open>restrict\<close> pointers of a micro-kernel name three
  separate buffers, so each of them has a memory of its own.
\<close>

type_synonym inc_t = int
type_synonym dim_t = nat
type_synonym ptr = int
type_synonym 'a mem = "ptr \<Rightarrow> 'a"

text \<open>
  The C loop \<open>for ( i = lo; i < n; ++i ) body\<close>, threading the state that the
  body mutates.
\<close>

function for_loop :: "nat \<Rightarrow> nat \<Rightarrow> (nat \<Rightarrow> 's \<Rightarrow> 's) \<Rightarrow> 's \<Rightarrow> 's" where
  "for_loop i n body s = (if i < n then for_loop (Suc i) n body (body i s) else s)"
  by pat_completeness auto
termination
  by (relation "measure (\<lambda>(i, n, body, s). n - i)") auto

declare for_loop.simps [simp del]

section \<open>setv: filling a vector with a scalar\<close>

text \<open>
  Modelled from the spec: the scalar macros \<open>eq0\<close>, \<open>set0s\<close>, \<open>copys\<close> and the
  test \<open>bli_zero_dim1\<close> come from \<open>blis.h\<close>, which is not among the sources.
  \<open>eq0\<close> tests a scalar against the additive identity of its type, \<open>set0s\<close> assigns
  the zero of the element type, and \<open>copys\<close> assigns the scalar converted to the
  element type; the conversion of the type pair is the parameter \<open>cast\<close>.
\<close>

definition bli_zero_dim1 :: "dim_t \<Rightarrow> bool" where
  "bli_zero_dim1 n \<longleftrightarrow> n = 0"

definition eq0 :: "'b::zero \<Rightarrow> bool" where
  "eq0 b \<longleftrightarrow> b = 0"

definition set0s :: "'x::zero" where
  "set0s = 0"

definition copys :: "('b \<Rightarrow> 'x) \<Rightarrow> 'b \<Rightarrow> 'x" where
  "copys cast b = cast b"

text \<open>
  One iteration of either loop of \<open>setv_unb_var1\<close>: store the value through
  \<open>chi1\<close>, then \<open>chi1 += incx\<close>. The state is the pointer and the buffer.
\<close>

definition setv_iter :: "'x \<Rightarrow> inc_t \<Rightarrow> nat \<Rightarrow> ptr \<times> 'x mem \<Rightarrow> ptr \<times> 'x mem" where
  "setv_iter v incx i s = (case s of (chi1, m) \<Rightarrow> (chi1 + incx, m(chi1 := v)))"

definition setv_zero_loop :: "dim_t \<Rightarrow> ptr \<Rightarrow> inc_t \<Rightarrow> 'x::zero mem \<Rightarrow> ptr \<times> 'x mem" where
  "setv_zero_loop n x incx m = for_loop 0 n (setv_iter set0s incx) (x, m)"

definition setv_copy_loop ::
  "('b \<Rightarrow> 'x) \<Rightarrow> dim_t \<Rightarrow> 'b \<Rightarrow> ptr \<Rightarrow> inc_t \<Rightarrow> 'x mem \<Rightarrow> ptr \<times> 'x mem" where
  "setv_copy_loop cast n beta x incx m = for_loop 0 n (setv_iter (copys cast beta) incx) (x, m)"

definition setv_unb_var1 ::
  "('b::zero \<Rightarrow> 'x::zero) \<Rightarrow> dim_t \<Rightarrow> 'b \<Rightarrow> ptr \<Rightarrow> inc_t \<Rightarrow> 'x mem \<Rightarrow> 'x mem" where
  "setv_unb_var1 cast n beta x incx m =
     (if bli_zero_dim1 n then m
      else if eq0 beta then snd (setv_zero_loop n x incx m)
      else snd (setv_copy_loop cast n beta x incx m))"

section \<open>Double-precision arithmetic\<close>

text \<open>
  The kernel computes in C's \<open>double\<close>, whose values are the data of the IEEE 754
  binary64 format: the finite numbers (\<open>Fin r\<close>, where \<open>Fin 0\<close> is the positive
  zero), the negative zero, the two infinities and NaN (a single NaN: payloads and
  signalling are left out). The type also holds \<open>Fin r\<close> for real numbers \<open>r\<close>
  that are no binary64 numbers; the operations below deliver binary64 data only, and
  \<open>finite_double\<close> singles out the finite binary64 values.
\<close>

datatype double = Fin real | NegZero | PosInf | NegInf | NaN

definition is_inf :: "double \<Rightarrow> bool" where
  "is_inf x \<longleftrightarrow> x = PosInf \<or> x = NegInf"

definition is_zero :: "double \<Rightarrow> bool" where
  "is_zero x \<longleftrightarrow> x = Fin 0 \<or> x = NegZero"

fun sign_bit :: "double \<Rightarrow> bool" where
  "sign_bit (Fin r) = (r < 0)"
| "sign_bit NegZero = True"
| "sign_bit PosInf = False"
| "sign_bit NegInf = True"
| "sign_bit NaN = False"

fun valof :: "double \<Rightarrow> real" where
  "valof (Fin r) = r"
| "valof NegZero = 0"
| "valof PosInf = 0"
| "valof NegInf = 0"
| "valof NaN = 0"

definition zero_signed :: "bool \<Rightarrow> double" where
  "zero_signed neg = (if neg then NegZero else Fin 0)"

definition inf_signed :: "bool \<Rightarrow> double" where
  "inf_signed neg = (if neg then NegInf else PosInf)"

text \<open>
  Rounding to nearest, ties to even. \<open>rne\<close> rounds a real number to an integer.
  \<open>round_binary64\<close> rounds a real number to 53 significant bits; the exponent is
  bounded below by that of the subnormal numbers (whose unit is \<open>2 powr - 1074\<close>)
  and is not bounded above. \<open>rnd\<close> delivers the rounded result: a magnitude of
  \<open>2 ^ 1024\<close> or more overflows to an infinity, and a result that rounds to zero
  keeps the sign of the exact value.
\<close>

definition rne :: "real \<Rightarrow> int" where
  "rne q = (let f = \<lfloor>q\<rfloor> in
      if q - of_int f < 1 / 2 then f
      else if 1 / 2 < q - of_int f then f + 1
      else if even f then f else f + 1)"

definition round_binary64 :: "real \<Rightarrow> real" where
  "round_binary64 r =
     (let e = max \<lfloor>log 2 \<bar>r\<bar>\<rfloor> (- 1022);
          u = 2 powr (of_int e - 52)
      in of_int (rne (r / u)) * u)"

definition rnd :: "real \<Rightarrow> double" where
  "rnd r =
     (let y = round_binary64 r in
      if 2 ^ 1024 \<le> \<bar>y\<bar> then inf_signed (r < 0)
      else if y = 0 then zero_signed (r < 0)
      else Fin y)"

text \<open>
  The product, the sum, the negation and the difference of two doubles. Every operation
  is rounded once, so the product inside \<open>y + a * x\<close> is rounded before it is added
  (no fused multiply-add). A NaN operand gives NaN, as do \<open>0 * \<infinity>\<close> and
  \<open>\<infinity> - \<infinity>\<close>; an exact zero result is negative only for a product of
  operands of different signs and for a sum of two negative zeros.
\<close>

definition d_mul :: "double \<Rightarrow> double \<Rightarrow> double" where
  "d_mul x y =
     (if x = NaN \<or> y = NaN then NaN
      else if is_inf x \<or> is_inf y
        then (if is_zero x \<or> is_zero y then NaN else inf_signed (sign_bit x \<noteq> sign_bit y))
      else if valof x * valof y = 0 then zero_signed (sign_bit x \<noteq> sign_bit y)
      else rnd (valof x * valof y))"

definition d_add :: "double \<Rightarrow> double \<Rightarrow> double" where
  "d_add x y =
     (if x = NaN \<or> y = NaN then NaN
      else if is_inf x then (if is_inf y \<and> x \<noteq> y then NaN else x)
      else if is_inf y then y
      else if valof x + valof y = 0 then zero_signed (sign_bit x \<and> sign_bit y)
      else rnd (valof x + valof y))"

fun d_neg :: "double \<Rightarrow> double" where
  "d_neg (Fin r) = (if r = 0 then NegZero else Fin (- r))"
| "d_neg NegZero = Fin 0"
| "d_neg PosInf = NegInf"
| "d_neg NegInf = PosInf"
| "d_neg NaN = NaN"

definition d_sub :: "double \<Rightarrow> double \<Rightarrow> double" where
  "d_sub x y = d_add x (d_neg y)"

text \<open>
  The finite binary64 values: the two zeros, and the nonzero numbers that rounding
  leaves as they are.
\<close>

definition finite_double :: "double \<Rightarrow> bool" where
  "finite_double x \<longleftrightarrow> (case x of Fin r \<Rightarrow> r = 0 \<or> rnd r = Fin r | NegZero \<Rightarrow> True | _ \<Rightarrow> False)"

section \<open>The trsm\_u micro-kernel\<close>

text \<open>
  Modelled from the spec: the scalar macros of \<open>blis.h\<close>, which is not among the
  sources, in double precision. \<open>set0s\<close> clears the accumulator, \<open>axpys\<close>
  accumulates a product into it (\<open>y += a * x\<close>), \<open>subs\<close> subtracts its first
  operand from the second (\<open>y -= a\<close>), \<open>scals\<close> multiplies the second operand
  by the first (\<open>y *= a\<close>), \<open>copys\<close> assigns.
\<close>

definition bli_dset0s :: double where
  "bli_dset0s = Fin 0"

definition bli_daxpys :: "double \<Rightarrow> double \<Rightarrow> double \<Rightarrow> double" where
  "bli_daxpys a x y = d_add y (d_mul a x)"

definition bli_dsubs :: "double \<Rightarrow> double \<Rightarrow> double" where
  "bli_dsubs a y = d_sub y a"

definition bli_dscals :: "double \<Rightarrow> double \<Rightarrow> double" where
  "bli_dscals a y = d_mul y a"

definition bli_dcopys :: "double \<Rightarrow> double" where
  "bli_dcopys x = x"

text \<open>
  The loops of the micro-kernel are written once, over the five scalar macros they call,
  which are collected in a record. \<open>bli_d\<close> holds the double-precision macros, and
  \<open>bli_dtrsm_u_opt_mxn\<close> below is the loops with them.
\<close>

record 'a scalar_macros =
  set0s_of :: 'a
  axpys_of :: "'a \<Rightarrow> 'a \<Rightarrow> 'a \<Rightarrow> 'a"
  subs_of :: "'a \<Rightarrow> 'a \<Rightarrow> 'a"
  scals_of :: "'a \<Rightarrow> 'a \<Rightarrow> 'a"
  copys_of :: "'a \<Rightarrow> 'a"

definition bli_d :: "double scalar_macros" where
  "bli_d = \<lparr>set0s_of = bli_dset0s, axpys_of = bli_daxpys, subs_of = bli_dsubs,
            scals_of = bli_dscals, copys_of = bli_dcopys\<rparr>"

text \<open>
  Modelled from the spec: the same five macros over the real numbers, without rounding.
  This is the exact arithmetic in which the specification writes \<open>C := A\<^sup>-\<^sup>1 B\<close>;
  the compiled kernel does not run it.
\<close>

definition exact_arith :: "real scalar_macros" where
  "exact_arith = \<lparr>set0s_of = 0, axpys_of = (\<lambda>a x y. y + a * x), subs_of = (\<lambda>a y. y - a),
            scals_of = (\<lambda>a y. y * a), copys_of = (\<lambda>x. x)\<rparr>"

text \<open>
  The register block sizes and the leading dimensions of the packed micro-panels are
  constants of the configuration (\<open>bli_dmr\<close>, \<open>bli_dnr\<close>, \<open>bli_dpackmr\<close>,
  \<open>bli_dpacknr\<close>), defined outside the sources: they are parameters here.
\<close>

record blksz =
  bli_dmr :: dim_t
  bli_dnr :: dim_t
  bli_dpackmr :: dim_t
  bli_dpacknr :: dim_t

text \<open>The innermost loop: \<open>rho11\<close> accumulates \<open>a12t * x21\<close> over \<open>n_behind\<close> terms.\<close>

definition rho_iter ::
  "'a scalar_macros \<Rightarrow> 'a mem \<Rightarrow> 'a mem \<Rightarrow> ptr \<Rightarrow> ptr \<Rightarrow> inc_t \<Rightarrow> inc_t \<Rightarrow> nat \<Rightarrow> 'a \<Rightarrow> 'a" where
  "rho_iter sc amem bmem a12t x21 cs_a rs_b l rho11 =
     (let alpha12 = a12t + int l * cs_a;
          chi21 = x21 + int l * rs_b
      in axpys_of sc (amem alpha12) (bmem chi21) rho11)"

definition rho11_loop ::
  "'a scalar_macros \<Rightarrow> 'a mem \<Rightarrow> 'a mem \<Rightarrow> ptr \<Rightarrow> ptr \<Rightarrow> inc_t \<Rightarrow> inc_t \<Rightarrow> dim_t \<Rightarrow> 'a" where
  "rho11_loop sc amem bmem a12t x21 cs_a rs_b n_behind =
     for_loop 0 n_behind (rho_iter sc amem bmem a12t x21 cs_a rs_b) (set0s_of sc)"

text \<open>
  The body of the loop over the columns \<open>j\<close>. The state is the memory of the packed
  block \<open>b\<close> and the memory of the output matrix \<open>c\<close>; the packed block \<open>a\<close> is
  only read.
\<close>

definition trsm_u_col ::
  "'a scalar_macros \<Rightarrow> 'a mem \<Rightarrow> ptr \<Rightarrow> inc_t \<Rightarrow> inc_t \<Rightarrow> inc_t \<Rightarrow> inc_t \<Rightarrow> inc_t \<Rightarrow> nat \<Rightarrow> dim_t
     \<Rightarrow> ptr \<Rightarrow> ptr \<Rightarrow> ptr \<Rightarrow> ptr \<Rightarrow> nat \<Rightarrow> 'a mem \<times> 'a mem \<Rightarrow> 'a mem \<times> 'a mem" where
  "trsm_u_col sc amem c rs_c cs_c cs_a rs_b cs_b i n_behind alpha11 a12t x1 X2 j s =
     (case s of (bmem, cmem) \<Rightarrow>
        let chi11 = x1 + 0 * rs_b + int j * cs_b;
            x21 = X2 + 0 * rs_b + int j * cs_b;
            gamma11 = c + int i * rs_c + int j * cs_c;
            rho11 = rho11_loop sc amem bmem a12t x21 cs_a rs_b n_behind;
            bmem1 = bmem(chi11 := subs_of sc rho11 (bmem chi11));
            bmem2 = bmem1(chi11 := scals_of sc (amem alpha11) (bmem1 chi11));
            cmem1 = cmem(gamma11 := copys_of sc (bmem2 chi11))
        in (bmem2, cmem1))"

text \<open>The row and the count of rows behind it that the outer iteration \<open>iter\<close> works on.\<close>

definition trsm_u_row :: "dim_t \<Rightarrow> nat \<Rightarrow> nat" where
  "trsm_u_row m iter = m - iter - 1"

definition trsm_u_n_behind :: "nat \<Rightarrow> dim_t" where
  "trsm_u_n_behind iter = iter"

definition trsm_u_iter ::
  "'a scalar_macros \<Rightarrow> blksz \<Rightarrow> ptr \<Rightarrow> ptr \<Rightarrow> ptr \<Rightarrow> inc_t \<Rightarrow> inc_t \<Rightarrow> 'a mem \<Rightarrow> nat
     \<Rightarrow> 'a mem \<times> 'a mem \<Rightarrow> 'a mem \<times> 'a mem" where
  "trsm_u_iter sc cfg a b c rs_c cs_c amem iter s =
     (let m = bli_dmr cfg;
          n = bli_dnr cfg;
          rs_a = 1;
          cs_a = int (bli_dpackmr cfg);
          rs_b = int (bli_dpacknr cfg);
          cs_b = 1;
          i = trsm_u_row m iter;
          n_behind = trsm_u_n_behind iter;
          alpha11 = a + int i * rs_a + int i * cs_a;
          a12t = a + int i * rs_a + int (i + 1) * cs_a;
          x1 = b + int i * rs_b + 0 * cs_b;
          X2 = b + int (i + 1) * rs_b + 0 * cs_b
      in for_loop 0 n
           (trsm_u_col sc amem c rs_c cs_c cs_a rs_b cs_b i n_behind alpha11 a12t x1 X2) s)"

definition trsm_u_opt_mxn ::
  "'a scalar_macros \<Rightarrow> blksz \<Rightarrow> ptr \<Rightarrow> ptr \<Rightarrow> ptr \<Rightarrow> inc_t \<Rightarrow> inc_t \<Rightarrow> 'a mem
     \<Rightarrow> 'a mem \<times> 'a mem \<Rightarrow> 'a mem \<times> 'a mem" where
  "trsm_u_opt_mxn sc cfg a b c rs_c cs_c amem s =
     for_loop 0 (bli_dmr cfg) (trsm_u_iter sc cfg a b c rs_c cs_c amem) s"

text \<open>The double-precision micro-kernel: the loops, with the double-precision macros.\<close>

definition bli_dtrsm_u_opt_mxn ::
  "blksz \<Rightarrow> ptr \<Rightarrow> ptr \<Rightarrow> ptr \<Rightarrow> inc_t \<Rightarrow> inc_t \<Rightarrow> double mem
     \<Rightarrow> double mem \<times> double mem \<Rightarrow> double mem \<times> double mem" where
  "bli_dtrsm_u_opt_mxn = trsm_u_opt_mxn bli_d"

text \<open>
  The entry points for the other three datatypes only call the reference
  micro-kernels, which are defined outside the sources: each is a parameter, a
  transformer of the memory the three pointers refer to.
\<close>

definition bli_strsm_u_opt_mxn ::
  "(ptr \<Rightarrow> ptr \<Rightarrow> ptr \<Rightarrow> inc_t \<Rightarrow> inc_t \<Rightarrow> 'h \<Rightarrow> 'h) \<Rightarrow> ptr \<Rightarrow> ptr \<Rightarrow> ptr \<Rightarrow> inc_t \<Rightarrow> inc_t \<Rightarrow> 'h \<Rightarrow> 'h" where
  "bli_strsm_u_opt_mxn bli_strsm_u_ref_mxn a b c rs_c cs_c h =
     bli_strsm_u_ref_mxn a b c rs_c cs_c h"

definition bli_ctrsm_u_opt_mxn ::
  "(ptr \<Rightarrow> ptr \<Rightarrow> ptr \<Rightarrow> inc_t \<Rightarrow> inc_t \<Rightarrow> 'h \<Rightarrow> 'h) \<Rightarrow> ptr \<Rightarrow> ptr \<Rightarrow> ptr \<Rightarrow> inc_t \<Rightarrow> inc_t \<Rightarrow> 'h \<Rightarrow> 'h" where
  "bli_ctrsm_u_opt_mxn bli_ctrsm_u_ref_mxn a b c rs_c cs_c h =
     bli_ctrsm_u_ref_mxn a b c rs_c cs_c h"

definition bli_ztrsm_u_opt_mxn ::
  "(ptr \<Rightarrow> ptr \<Rightarrow> ptr \<Rightarrow> inc_t \<Rightarrow> inc_t \<Rightarrow> 'h \<Rightarrow> 'h) \<Rightarrow> ptr \<Rightarrow> ptr \<Rightarrow> ptr \<Rightarrow> inc_t \<Rightarrow> inc_t \<Rightarrow> 'h \<Rightarrow> 'h" where
  "bli_ztrsm_u_opt_mxn bli_ztrsm_u_ref_mxn a b c rs_c cs_c h =
     bli_ztrsm_u_ref_mxn a b c rs_c cs_c h"

section \<open>The blocks the micro-kernel addresses\<close>

text \<open>
  The element \<open>[i,l]\<close> of the packed triangular block (row stride \<open>rs_a = 1\<close>,
  column stride \<open>cs_a = bli_dpackmr\<close>), the element \<open>[i,j]\<close> of the packed
  right-hand side (\<open>rs_b = bli_dpacknr\<close>, \<open>cs_b = 1\<close>) and the element
  \<open>[i,j]\<close> of the output matrix (\<open>rs_c\<close>, \<open>cs_c\<close>), as the kernel
  computes their addresses.
\<close>

definition a11 :: "blksz \<Rightarrow> ptr \<Rightarrow> 'a mem \<Rightarrow> nat \<Rightarrow> nat \<Rightarrow> 'a" where
  "a11 cfg a amem i l = amem (a + int i * 1 + int l * int (bli_dpackmr cfg))"

definition b11 :: "blksz \<Rightarrow> ptr \<Rightarrow> 'a mem \<Rightarrow> nat \<Rightarrow> nat \<Rightarrow> 'a" where
  "b11 cfg b bmem i j = bmem (b + int i * int (bli_dpacknr cfg) + int j * 1)"

definition c11 :: "ptr \<Rightarrow> inc_t \<Rightarrow> inc_t \<Rightarrow> 'a mem \<Rightarrow> nat \<Rightarrow> nat \<Rightarrow> 'a" where
  "c11 c rs_c cs_c cmem i j = cmem (c + int i * rs_c + int j * cs_c)"

text \<open>
  Back-substitution as the specification words it: for row \<open>i\<close> and column
  \<open>j\<close>, accumulate \<open>\<rho>\<close> over the rows \<open>l > i\<close> that are already solved,
  subtract it from \<open>B[i,j]\<close>, and multiply by the stored diagonal entry; the
  operations are those of the given macros. \<open>rho_rows\<close> is the accumulation alone,
  over given values \<open>X\<close> of the rows behind.
\<close>

definition rho_rows ::
  "'a scalar_macros \<Rightarrow> (nat \<Rightarrow> nat \<Rightarrow> 'a) \<Rightarrow> (nat \<Rightarrow> nat \<Rightarrow> 'a) \<Rightarrow> nat \<Rightarrow> nat \<Rightarrow> nat \<Rightarrow> 'a" where
  "rho_rows sc A X m i j =
     fold (\<lambda>l rho. axpys_of sc (A i l) (X l j) rho) [Suc i..<m] (set0s_of sc)"

function back_subst ::
  "'a scalar_macros \<Rightarrow> (nat \<Rightarrow> nat \<Rightarrow> 'a) \<Rightarrow> (nat \<Rightarrow> nat \<Rightarrow> 'a) \<Rightarrow> nat \<Rightarrow> nat \<Rightarrow> nat \<Rightarrow> 'a" where
  "back_subst sc A B m i j =
     scals_of sc (A i i)
       (subs_of sc
          (fold (\<lambda>l rho. axpys_of sc (A i l) (back_subst sc A B m l j) rho) [Suc i..<m] (set0s_of sc))
          (B i j))"
  by pat_completeness auto
termination
  by (relation "measure (\<lambda>(sc, A, B, m, i, j). m - i)") auto

declare back_subst.simps [simp del]

text \<open>
  The packed block \<open>A\<close> stores the upper triangular matrix \<open>U\<close>: the stored
  diagonal holds the reciprocals of the diagonal of \<open>U\<close>, the strictly upper part is
  stored as it is, and \<open>U\<close> is zero below its diagonal. Nothing is said of what
  \<open>A\<close> holds below the diagonal.
\<close>

definition stores_upper :: "nat \<Rightarrow> (nat \<Rightarrow> nat \<Rightarrow> real) \<Rightarrow> (nat \<Rightarrow> nat \<Rightarrow> real) \<Rightarrow> bool" where
  "stores_upper m U A \<longleftrightarrow>
     (\<forall>i<m. U i i * A i i = 1 \<and> (\<forall>l<m. (i < l \<longrightarrow> A i l = U i l) \<and> (l < i \<longrightarrow> U i l = 0)))"

section \<open>The residual check of the syrk test\<close>

text \<open>
  The test harness works on object descriptors. Only the real datatypes are modelled
  (conjugation is the identity on them), with exact arithmetic. A matrix descriptor
  carries its stored dimensions, its transposition bit, its structure, which triangle
  is stored, and its elements by row and column index; a vector carries its length and
  its elements.
\<close>

datatype uplo_t = BLIS_LOWER | BLIS_UPPER | BLIS_DENSE
datatype trans_t = BLIS_NO_TRANSPOSE | BLIS_TRANSPOSE
datatype struc_t = BLIS_GENERAL | BLIS_SYMMETRIC

record obj_t =
  obj_length :: dim_t
  obj_width :: dim_t
  obj_trans :: trans_t
  obj_struc :: struc_t
  obj_uplo :: uplo_t
  obj_buf :: "nat \<Rightarrow> nat \<Rightarrow> real"


text \<open>
  Modelled from the spec: the descriptor accessors of the object layer are not among the
  sources. The dimensions and the elements after the pending transposition is applied,
  the stored triangle, and the element of a symmetric matrix read from its stored
  triangle only.
\<close>

definition bli_obj_length :: "obj_t \<Rightarrow> dim_t" where
  "bli_obj_length x = obj_length x"

definition bli_obj_length_after_trans :: "obj_t \<Rightarrow> dim_t" where
  "bli_obj_length_after_trans x =
     (if obj_trans x = BLIS_TRANSPOSE then obj_width x else obj_length x)"

definition bli_obj_width_after_trans :: "obj_t \<Rightarrow> dim_t" where
  "bli_obj_width_after_trans x =
     (if obj_trans x = BLIS_TRANSPOSE then obj_length x else obj_width x)"


definition is_stored :: "uplo_t \<Rightarrow> nat \<Rightarrow> nat \<Rightarrow> bool" where
  "is_stored uplo i j =
     (case uplo of BLIS_LOWER \<Rightarrow> j \<le> i | BLIS_UPPER \<Rightarrow> i \<le> j | BLIS_DENSE \<Rightarrow> True)"

definition elem_symm :: "obj_t \<Rightarrow> nat \<Rightarrow> nat \<Rightarrow> real" where
  "elem_symm x i j = (if is_stored (obj_uplo x) i j then obj_buf x i j else obj_buf x j i)"












text \<open>
  Modelled from the spec: the matrix helpers that the experiment calls while it prepares
  its operands are not among the sources. \<open>libblis_test_mobj_create\<close> creates an
  uninitialised matrix that is \<open>m \<times> n\<close> once the transposition is applied;
  \<open>bli_randm\<close>, \<open>bli_copym\<close> and \<open>bli_scalm\<close> work on the stored region
  of their operand; \<open>bli_mksymm\<close> reflects the stored triangle into the other one
  and \<open>bli_mktrim\<close> zeroes the triangle that is not stored.
\<close>

definition libblis_test_mobj_create :: "trans_t \<Rightarrow> dim_t \<Rightarrow> dim_t \<Rightarrow> (nat \<Rightarrow> nat \<Rightarrow> real) \<Rightarrow> obj_t" where
  "libblis_test_mobj_create transx m n garbage =
     \<lparr>obj_length = (if transx = BLIS_TRANSPOSE then n else m),
      obj_width = (if transx = BLIS_TRANSPOSE then m else n),
      obj_trans = BLIS_NO_TRANSPOSE, obj_struc = BLIS_GENERAL, obj_uplo = BLIS_DENSE,
      obj_buf = garbage\<rparr>"

definition bli_obj_set_struc :: "struc_t \<Rightarrow> obj_t \<Rightarrow> obj_t" where
  "bli_obj_set_struc s x = x\<lparr>obj_struc := s\<rparr>"

definition bli_obj_set_uplo :: "uplo_t \<Rightarrow> obj_t \<Rightarrow> obj_t" where
  "bli_obj_set_uplo u x = x\<lparr>obj_uplo := u\<rparr>"

definition bli_obj_set_conjtrans :: "trans_t \<Rightarrow> obj_t \<Rightarrow> obj_t" where
  "bli_obj_set_conjtrans t x = x\<lparr>obj_trans := t\<rparr>"

definition in_obj :: "obj_t \<Rightarrow> nat \<Rightarrow> nat \<Rightarrow> bool" where
  "in_obj x i j \<longleftrightarrow> i < obj_length x \<and> j < obj_width x"

definition bli_randm :: "(nat \<Rightarrow> nat \<Rightarrow> real) \<Rightarrow> obj_t \<Rightarrow> obj_t" where
  "bli_randm R x =
     x\<lparr>obj_buf := (\<lambda>i j. if in_obj x i j \<and> is_stored (obj_uplo x) i j then R i j else obj_buf x i j)\<rparr>"

definition bli_mksymm :: "obj_t \<Rightarrow> obj_t" where
  "bli_mksymm x = x\<lparr>obj_buf := (\<lambda>i j. if in_obj x i j then elem_symm x i j else obj_buf x i j)\<rparr>"

definition bli_mktrim :: "obj_t \<Rightarrow> obj_t" where
  "bli_mktrim x =
     x\<lparr>obj_buf := (\<lambda>i j. if in_obj x i j \<and> \<not> is_stored (obj_uplo x) i j then 0 else obj_buf x i j)\<rparr>"

definition bli_copym :: "obj_t \<Rightarrow> obj_t \<Rightarrow> obj_t" where
  "bli_copym x y =
     y\<lparr>obj_buf := (\<lambda>i j. if in_obj x i j \<and> is_stored (obj_uplo x) i j then obj_buf x i j else obj_buf y i j)\<rparr>"

definition bli_scalm :: "real \<Rightarrow> obj_t \<Rightarrow> obj_t" where
  "bli_scalm kappa x =
     x\<lparr>obj_buf := (\<lambda>i j. if in_obj x i j \<and> is_stored (obj_uplo x) i j then kappa * obj_buf x i j else obj_buf x i j)\<rparr>"


text \<open>
  The experiment in two parts: the preparation of the operands, up to the repeat loop,
  and the repeat loop with the check after it. The implementation under test is the
  parameter \<open>impl\<close>; timing and the performance estimate are left out. The real
  datatypes take \<open>alpha = 1.2\<close> and \<open>beta = -1.0\<close>.
\<close>

record syrk_operands =
  op_alpha :: real
  op_a :: obj_t
  op_beta :: real
  op_c :: obj_t
  op_c_save :: obj_t

definition syrk_experiment_setup ::
  "uplo_t \<Rightarrow> trans_t \<Rightarrow> dim_t \<Rightarrow> dim_t \<Rightarrow> (nat \<Rightarrow> nat \<Rightarrow> real) \<Rightarrow> (nat \<Rightarrow> nat \<Rightarrow> real)
     \<Rightarrow> (nat \<Rightarrow> nat \<Rightarrow> real) \<Rightarrow> (nat \<Rightarrow> nat \<Rightarrow> real) \<Rightarrow> (nat \<Rightarrow> nat \<Rightarrow> real) \<Rightarrow> syrk_operands" where
  "syrk_experiment_setup uploc transa m k R_a R_c g_a g_c g_s =
     (let a = libblis_test_mobj_create transa m k g_a;
          c = libblis_test_mobj_create BLIS_NO_TRANSPOSE m m g_c;
          c_save = libblis_test_mobj_create BLIS_NO_TRANSPOSE m m g_s;
          alpha = 12 / 10;
          beta = - 1;
          a = bli_randm R_a a;
          c = bli_obj_set_struc BLIS_SYMMETRIC c;
          c = bli_obj_set_uplo uploc c;
          c = bli_randm R_c c;
          c = bli_mksymm c;
          c = bli_mktrim c;
          c_save = bli_obj_set_struc BLIS_SYMMETRIC c_save;
          c_save = bli_obj_set_uplo uploc c_save;
          c_save = bli_copym c c_save;
          kappa = 1 / real k;
          a = bli_scalm kappa a;
          a = bli_obj_set_conjtrans transa a
      in \<lparr>op_alpha = alpha, op_a = a, op_beta = beta, op_c = c, op_c_save = c_save\<rparr>)"



section \<open>Example blocks\<close>

text \<open>
  A configuration with \<open>1 \<times> 1\<close> register blocks, and one with \<open>2 \<times> 2\<close>
  register blocks and packed panels of leading dimension 2. The packed block
  \<open>a_2x2\<close> stores \<open>[[1/2, 3], [9, 1/4]]\<close> by columns, the 9 standing in the
  unstored triangle; \<open>id_2x2\<close> stores the identity, again with a 9 in the unstored
  triangle. The packed block \<open>b_2x2\<close> is \<open>[[0, 1], [2, 3]]\<close>, and \<open>b_inf\<close>
  is \<open>[[1, 1], [\<infinity>, 1]]\<close>.
\<close>

definition cfg_1x1 :: blksz where
  "cfg_1x1 = \<lparr>bli_dmr = 1, bli_dnr = 1, bli_dpackmr = 1, bli_dpacknr = 1\<rparr>"

definition cfg_2x2 :: blksz where
  "cfg_2x2 = \<lparr>bli_dmr = 2, bli_dnr = 2, bli_dpackmr = 2, bli_dpacknr = 2\<rparr>"

definition a_2x2 :: "double mem" where
  "a_2x2 = (\<lambda>p. if p = 0 then Fin (1 / 2) else if p = 2 then Fin 3 else if p = 3 then Fin (1 / 4)
                else Fin 9)"

definition id_2x2 :: "double mem" where
  "id_2x2 = (\<lambda>p. if p = 0 then Fin 1 else if p = 2 then Fin 0 else if p = 3 then Fin 1 else Fin 9)"

definition b_2x2 :: "double mem" where
  "b_2x2 = (\<lambda>p. Fin (real_of_int p))"

definition b_inf :: "double mem" where
  "b_inf = (\<lambda>p. if p = 2 then PosInf else Fin 1)"

section \<open>Addresses\<close>

text \<open>The addresses of the \<open>n\<close> elements of a vector at \<open>x\<close> with stride \<open>incx\<close>.\<close>

definition vec_addrs :: "dim_t \<Rightarrow> ptr \<Rightarrow> inc_t \<Rightarrow> ptr set" where
  "vec_addrs n x incx = (\<lambda>i. x + int i * incx) ` {0..<n}"

section \<open>Properties of the loops\<close>

lemma for_loop_fold: "for_loop i n body s = fold body [i..<n] s"
proof (induction i n body s rule: for_loop.induct)
  case (1 i n body s)
  show ?case
  proof (cases "i < n")
    case True
    with "1" show ?thesis
      by (subst for_loop.simps) (simp add: upt_rec [of i n])
  next
    case False
    then show ?thesis
      by (subst for_loop.simps) simp
  qed
qed

lemma for_loop_0 [simp]: "for_loop i 0 body s = s"
  by (simp add: for_loop_fold)

lemma for_loop_Suc: "i \<le> n \<Longrightarrow> for_loop i (Suc n) body s = body n (for_loop i n body s)"
  by (simp add: for_loop_fold)

lemma setv_fill:
  "for_loop 0 n (setv_iter v incx) (x, m) =
     (x + int n * incx, (\<lambda>p. if p \<in> vec_addrs n x incx then v else m p))"
proof (induction n)
  case 0
  show ?case by (simp add: vec_addrs_def)
next
  case (Suc n)
  have addrs: "vec_addrs (Suc n) x incx = insert (x + int n * incx) (vec_addrs n x incx)"
    by (auto simp: vec_addrs_def less_Suc_eq)
  have "for_loop 0 (Suc n) (setv_iter v incx) (x, m) =
          setv_iter v incx n (for_loop 0 n (setv_iter v incx) (x, m))"
    by (simp add: for_loop_Suc)
  also have "\<dots> = setv_iter v incx n
          (x + int n * incx, (\<lambda>p. if p \<in> vec_addrs n x incx then v else m p))"
    by (simp only: Suc)
  also have "\<dots> = (x + int (Suc n) * incx,
          (\<lambda>p. if p \<in> vec_addrs (Suc n) x incx then v else m p))"
    by (simp add: setv_iter_def addrs fun_eq_iff algebra_simps)
  finally show ?case .
qed

lemma for_loop_cong:
  assumes "\<And>k. i \<le> k \<Longrightarrow> k < n \<Longrightarrow> f k = g k"
  shows "for_loop i n f s = for_loop i n g s"
  unfolding for_loop_fold
  by (rule fold_cong) (use assms in auto)

lemma for_loop_id:
  assumes "\<And>k t. body k t = t"
  shows "for_loop i n body s = s"
proof -
  have "fold body xs s = s" for xs
    by (induction xs) (simp_all add: assms)
  then show ?thesis
    by (simp add: for_loop_fold)
qed

lemma for_loop_split:
  assumes "i \<le> k" and "k \<le> n"
  shows "for_loop i n body s = for_loop k n body (for_loop i k body s)"
proof -
  obtain d where n: "n = k + d"
    using assms(2) by (auto simp: le_iff_add)
  have "[i..<k + d] = [i..<k] @ [k..<k + d]"
    by (rule upt_add_eq_append [OF assms(1)])
  then show ?thesis
    unfolding for_loop_fold n by simp
qed

section \<open>Properties of rounding\<close>

lemma rne_of_int [simp]: "rne (of_int k) = k"
  by (simp add: rne_def)

lemma round_binary64_in_binade:
  assumes "2 powr of_int e \<le> \<bar>r\<bar>" and "\<bar>r\<bar> < 2 powr (of_int e + 1)" and "- 1022 \<le> e"
  shows "round_binary64 r = of_int (rne (r / 2 powr (of_int e - 52))) * 2 powr (of_int e - 52)"
proof -
  have "0 < \<bar>r\<bar>"
    using assms(1) by (smt (verit) powr_gt_zero)
  then have "\<lfloor>log 2 \<bar>r\<bar>\<rfloor> = e"
    using assms(1,2) by (simp add: floor_log_eq_powr_iff)
  then show ?thesis
    using assms(3) by (simp add: round_binary64_def Let_def max_def)
qed

lemma round_binary64_dyadic:
  assumes "\<bar>k\<bar> < 2 ^ 53" and "n \<le> 1074"
  shows "round_binary64 (of_int k / 2 ^ n) = of_int k / 2 ^ n"
proof (cases "k = 0")
  case True
  then show ?thesis
    by (simp add: round_binary64_def Let_def rne_def)
next
  case False
  define r :: real where "r = of_int k / 2 ^ n"
  define E where "E = max \<lfloor>log 2 \<bar>r\<bar>\<rfloor> (- 1022)"
  have rpos: "0 < \<bar>r\<bar>"
    using False by (simp add: r_def)
  have "\<bar>r\<bar> < 2 ^ 53 / 2 ^ n"
  proof -
    have "\<bar>real_of_int k\<bar> < 2 ^ 53"
      using assms(1) by (metis of_int_abs of_int_less_numeral_power_cancel_iff)
    then show ?thesis
      by (simp add: r_def divide_strict_right_mono)
  qed
  also have "\<dots> = 2 powr (53 - real n)"
    by (simp add: powr_diff powr_realpow)
  finally have "log 2 \<bar>r\<bar> < 53 - real n"
    using rpos by (simp add: log_less_iff)
  then have "\<lfloor>log 2 \<bar>r\<bar>\<rfloor> < 53 - int n"
    by linarith
  then have E: "E \<le> 52 - int n"
    using assms(2) by (simp add: E_def)
  define d where "d = nat (52 - int n - E)"
  have u: "(2::real) powr (of_int E - 52) = 1 / (2 ^ n * 2 ^ d)"
  proof -
    have "of_int E - 52 = - real (n + d)"
      using E by (simp add: d_def)
    then have "(2::real) powr (of_int E - 52) = 1 / 2 powr real (n + d)"
      by (simp only: powr_minus_divide)
    also have "\<dots> = 1 / 2 ^ (n + d)"
      by (simp add: powr_add powr_realpow power_add)
    finally show ?thesis
      by (simp add: power_add)
  qed
  have "r / 2 powr (of_int E - 52) = of_int (k * 2 ^ d)"
    by (simp add: u r_def)
  then have "rne (r / 2 powr (of_int E - 52)) = k * 2 ^ d"
    by (simp only: rne_of_int)
  then have "of_int (rne (r / 2 powr (of_int E - 52))) * 2 powr (of_int E - 52) = r"
    by (simp add: u r_def)
  then show ?thesis
    unfolding round_binary64_def Let_def r_def [symmetric] E_def [symmetric] .
qed

lemma rnd_dyadic:
  assumes "k \<noteq> 0" and "\<bar>k\<bar> < 2 ^ 53" and "n \<le> 1074"
  shows "rnd (of_int k / 2 ^ n) = Fin (of_int k / 2 ^ n)"
proof -
  have "\<bar>real_of_int k\<bar> < 2 ^ 53"
    using assms(2) by (metis of_int_abs of_int_less_numeral_power_cancel_iff)
  moreover have "\<bar>real_of_int k\<bar> / 2 ^ n \<le> \<bar>real_of_int k\<bar> / 1"
    by (rule divide_left_mono) simp_all
  moreover have "(2::real) ^ 53 \<le> 2 ^ 1024"
    by (rule power_increasing) simp_all
  ultimately have "\<bar>real_of_int k / 2 ^ n\<bar> < 2 ^ 1024"
    by (simp add: abs_divide)
  then show ?thesis
    using assms(1) by (simp add: rnd_def round_binary64_dyadic [OF assms(2,3)] Let_def)
qed

lemma rnd_vals:
  "rnd 1 = Fin 1" "rnd 2 = Fin 2" "rnd 3 = Fin 3" "rnd 4 = Fin 4" "rnd 5 = Fin 5"
  "rnd (1 / 2) = Fin (1 / 2)" "rnd (3 / 4) = Fin (3 / 4)" "rnd (3 / 2) = Fin (3 / 2)"
  "rnd (9 / 4) = Fin (9 / 4)" "rnd (- (3 / 2)) = Fin (- (3 / 2))"
  "rnd (- (3 / 4)) = Fin (- (3 / 4))" "rnd (- (5 / 4)) = Fin (- (5 / 4))"
  "rnd (- (5 / 8)) = Fin (- (5 / 8))"
  using rnd_dyadic [of 1 0] rnd_dyadic [of 2 0] rnd_dyadic [of 3 0] rnd_dyadic [of 4 0]
    rnd_dyadic [of 5 0] rnd_dyadic [of 1 1] rnd_dyadic [of 3 2] rnd_dyadic [of 3 1]
    rnd_dyadic [of 9 2] rnd_dyadic [of "- 3" 1] rnd_dyadic [of "- 3" 2] rnd_dyadic [of "- 5" 2]
    rnd_dyadic [of "- 5" 3]
  by simp_all

lemma round_tenth:
  "round_binary64 (3 * (3602879701896397 / 2 ^ 55)) = 5404319552844596 / 2 ^ 54"
  using round_binary64_in_binade [of "-2" "3 * (3602879701896397 / 2 ^ 55)"]
  by (simp add: powr_minus_divide rne_def Let_def)

lemma d_mul_tenth:
  "d_mul (Fin 3) (Fin (3602879701896397 / 2 ^ 55)) = Fin (5404319552844596 / 2 ^ 54)"
  using round_tenth by (simp add: d_mul_def is_inf_def rnd_def Let_def)

lemma finite_tenth: "finite_double (Fin (3602879701896397 / 2 ^ 55))"
  using rnd_dyadic [of 3602879701896397 55] by (simp add: finite_double_def)

lemma finite_of_int:
  assumes "\<bar>k\<bar> < 2 ^ 53"
  shows "finite_double (Fin (real_of_int k))"
proof (cases "k = 0")
  case True
  then show ?thesis
    by (simp add: finite_double_def)
next
  case False
  then show ?thesis
    using rnd_dyadic [of k 0] assms by (simp add: finite_double_def)
qed

lemma daxpys_zero:
  assumes "is_zero a" and "finite_double x"
  shows "bli_daxpys a x (Fin 0) = Fin 0"
  using assms
  by (auto simp: finite_double_def bli_daxpys_def d_add_def d_mul_def is_zero_def is_inf_def
      zero_signed_def split: double.splits)

lemma dsubs_zero:
  assumes "finite_double x"
  shows "bli_dsubs (Fin 0) x = x"
  using assms
  by (auto simp: finite_double_def bli_dsubs_def d_sub_def d_add_def is_inf_def
      zero_signed_def split: double.splits)

lemma dscals_one:
  assumes "finite_double x"
  shows "bli_dscals (Fin 1) x = x"
  using assms
  by (auto simp: finite_double_def bli_dscals_def d_mul_def is_inf_def
      zero_signed_def split: double.splits)

section \<open>Properties of the micro-kernel\<close>

lemma bli_d_simps [simp]:
  "set0s_of bli_d = bli_dset0s" "axpys_of bli_d = bli_daxpys" "subs_of bli_d = bli_dsubs"
  "scals_of bli_d = bli_dscals" "copys_of bli_d = bli_dcopys"
  by (simp_all add: bli_d_def)

lemma exact_arith_simps [simp]:
  "set0s_of exact_arith = 0" "axpys_of exact_arith a x y = y + a * x"
  "subs_of exact_arith a y = y - a" "scals_of exact_arith a y = y * a" "copys_of exact_arith x = x"
  by (simp_all add: exact_arith_def)

lemma row_range:
  "(x1 \<le> p \<and> p < x1 + int n) \<longleftrightarrow> (\<exists>j<n. p = x1 + int j)"
proof
  assume "x1 \<le> p \<and> p < x1 + int n"
  then have "nat (p - x1) < n \<and> p = x1 + int (nat (p - x1))"
    by auto
  then show "\<exists>j<n. p = x1 + int j"
    by blast
qed auto

lemma baddr_inj:
  assumes "j < R" and "j' < R" and "int i * int R + int j = int i' * int R + int j'"
  shows "i = i' \<and> j = j'"
proof -
  have "i * R + j = i' * R + j'"
    using assms(3) by (metis (mono_tags) of_nat_add of_nat_mult of_nat_eq_iff)
  then have "(i * R + j) div R = (i' * R + j') div R" and "(i * R + j) mod R = (i' * R + j') mod R"
    by simp_all
  then show ?thesis
    using assms(1,2) by simp
qed

lemma b_addr_inj:
  assumes "j < R" and "j' < R"
    and "b + int i * int R + int j * 1 = b + int i' * int R + int j' * 1"
  shows "i = i' \<and> j = j'"
proof -
  have "int i * int R + int j = int i' * int R + int j'"
    using assms(3) by simp
  then show ?thesis
    using assms(1,2) by (rule baddr_inj [rotated 2])
qed

lemma back_subst_rho:
  "back_subst sc A B m i j =
     scals_of sc (A i i) (subs_of sc (rho_rows sc A (back_subst sc A B m) m i j) (B i j))"
  by (subst back_subst.simps) (simp add: rho_rows_def)

lemma rho_rows_cong:
  assumes "\<And>l. i < l \<Longrightarrow> l < m \<Longrightarrow> X l j = Y l j"
  shows "rho_rows sc A X m i j = rho_rows sc A Y m i j"
  unfolding rho_rows_def by (rule fold_cong) (use assms in auto)

lemma rho11_loop_fold:
  "rho11_loop sc amem bmem a12t x21 cs_a rs_b nb =
     fold (\<lambda>l rho. axpys_of sc (amem (a12t + int l * cs_a)) (bmem (x21 + int l * rs_b)) rho)
       [0..<nb] (set0s_of sc)"
  unfolding rho11_loop_def for_loop_fold by (simp add: rho_iter_def [abs_def] Let_def)

lemma trsm_u_col_eq:
  "trsm_u_col sc amem c rs_c cs_c cs_a rs_b 1 i nb alpha11 a12t x1 X2 j (bmem, cmem) =
     (let v = scals_of sc (amem alpha11)
                (subs_of sc (rho11_loop sc amem bmem a12t (X2 + int j) cs_a rs_b nb)
                   (bmem (x1 + int j)))
      in (bmem(x1 + int j := v), cmem(c + int i * rs_c + int j * cs_c := copys_of sc v)))"
  by (simp add: trsm_u_col_def Let_def)

lemma trsm_u_row_b_aux:
  assumes "int n' \<le> rs_b"
  shows "fst (for_loop 0 n'
            (trsm_u_col sc amem c rs_c cs_c cs_a rs_b 1 i nb alpha11 a12t x1 (x1 + rs_b))
            (bm, cm)) =
         (\<lambda>p. if x1 \<le> p \<and> p < x1 + int n'
               then scals_of sc (amem alpha11)
                      (subs_of sc
                         (fold (\<lambda>l rho. axpys_of sc (amem (a12t + int l * cs_a))
                                           (bm (p + rs_b + int l * rs_b)) rho)
                            [0..<nb] (set0s_of sc))
                         (bm p))
               else bm p)"
  using assms
proof (induction n')
  case 0
  show ?case by (auto simp: fun_eq_iff)
next
  case (Suc n')
  let ?col = "trsm_u_col sc amem c rs_c cs_c cs_a rs_b 1 i nb alpha11 a12t x1 (x1 + rs_b)"
  let ?st = "for_loop 0 n' ?col (bm, cm)"
  let ?f = "\<lambda>p. scals_of sc (amem alpha11)
                      (subs_of sc
                         (fold (\<lambda>l rho. axpys_of sc (amem (a12t + int l * cs_a))
                                           (bm (p + rs_b + int l * rs_b)) rho)
                            [0..<nb] (set0s_of sc))
                         (bm p))"
  have ih: "fst ?st = (\<lambda>p. if x1 \<le> p \<and> p < x1 + int n' then ?f p else bm p)"
    using Suc by simp
  have rs: "0 \<le> rs_b" "int n' < rs_b"
    using Suc.prems by simp_all
  have keep: "fst ?st q = bm q" if "\<not> q < x1 + int n'" for q
    using that by (simp add: ih)
  have far: "fst ?st (x1 + rs_b + int n' + int l * rs_b) = bm (x1 + int n' + rs_b + int l * rs_b)"
    for l
  proof -
    have eq: "x1 + rs_b + int n' + int l * rs_b = x1 + int n' + rs_b + int l * rs_b"
      by simp
    have "0 \<le> int l * rs_b"
      using rs(1) by simp
    then have "\<not> x1 + int n' + rs_b + int l * rs_b < x1 + int n'"
      using rs by linarith
    then have "fst ?st (x1 + int n' + rs_b + int l * rs_b) = bm (x1 + int n' + rs_b + int l * rs_b)"
      by (rule keep)
    then show ?thesis
      unfolding eq .
  qed
  have here: "fst ?st (x1 + int n') = bm (x1 + int n')"
    by (simp add: ih)
  have rho: "rho11_loop sc amem (fst ?st) a12t (x1 + rs_b + int n') cs_a rs_b nb =
               fold (\<lambda>l rho. axpys_of sc (amem (a12t + int l * cs_a))
                                 (bm (x1 + int n' + rs_b + int l * rs_b)) rho)
                 [0..<nb] (set0s_of sc)"
    by (simp only: rho11_loop_fold far)
  have step: "for_loop 0 (Suc n') ?col (bm, cm) = ?col n' (fst ?st, snd ?st)"
    by (simp add: for_loop_Suc)
  have "fst (?col n' (fst ?st, snd ?st)) = (fst ?st)(x1 + int n' := ?f (x1 + int n'))"
    by (simp only: trsm_u_col_eq Let_def rho here fst_conv)
  then have "fst (for_loop 0 (Suc n') ?col (bm, cm)) = (fst ?st)(x1 + int n' := ?f (x1 + int n'))"
    by (simp only: step)
  also have "\<dots> = (\<lambda>p. if x1 \<le> p \<and> p < x1 + int (Suc n') then ?f p else bm p)"
    unfolding ih by (auto simp: fun_eq_iff)
  finally show ?case .
qed

lemma trsm_u_iter_fst:
  assumes "bli_dnr cfg \<le> bli_dpacknr cfg"
  shows "fst (trsm_u_iter sc cfg a b c rs_c cs_c amem iter (bm, cm)) =
     (\<lambda>p. if b + int (trsm_u_row (bli_dmr cfg) iter) * int (bli_dpacknr cfg) \<le> p \<and>
              p < b + int (trsm_u_row (bli_dmr cfg) iter) * int (bli_dpacknr cfg) + int (bli_dnr cfg)
           then scals_of sc
                  (amem (a + int (trsm_u_row (bli_dmr cfg) iter) * 1
                          + int (trsm_u_row (bli_dmr cfg) iter) * int (bli_dpackmr cfg)))
                  (subs_of sc
                     (fold (\<lambda>l rho. axpys_of sc
                              (amem (a + int (trsm_u_row (bli_dmr cfg) iter) * 1
                                 + int (trsm_u_row (bli_dmr cfg) iter + 1) * int (bli_dpackmr cfg)
                                 + int l * int (bli_dpackmr cfg)))
                              (bm (p + int (bli_dpacknr cfg) + int l * int (bli_dpacknr cfg))) rho)
                        [0..<iter] (set0s_of sc))
                     (bm p))
           else bm p)"
proof -
  have X2: "b + int (i + 1) * rs_b + 0 * 1 = (b + int i * rs_b + 0 * 1) + rs_b" for i rs_b
    by (simp add: algebra_simps)
  have le: "int (bli_dnr cfg) \<le> int (bli_dpacknr cfg)"
    using assms by simp
  show ?thesis
    unfolding trsm_u_iter_def Let_def trsm_u_n_behind_def X2
    by (simp only: trsm_u_row_b_aux [OF le]) simp
qed

lemma trsm_u_iter_b11:
  assumes le: "bli_dnr cfg \<le> bli_dpacknr cfg" and it: "iter < bli_dmr cfg" and j: "j < bli_dnr cfg"
  shows "b11 cfg b (fst (trsm_u_iter sc cfg a b c rs_c cs_c amem iter (bm, cm)))
           (trsm_u_row (bli_dmr cfg) iter) j =
         scals_of sc
           (a11 cfg a amem (trsm_u_row (bli_dmr cfg) iter) (trsm_u_row (bli_dmr cfg) iter))
           (subs_of sc
              (rho_rows sc (a11 cfg a amem) (b11 cfg b bm) (bli_dmr cfg)
                 (trsm_u_row (bli_dmr cfg) iter) j)
              (b11 cfg b bm (trsm_u_row (bli_dmr cfg) iter) j))"
proof -
  define i where "i = trsm_u_row (bli_dmr cfg) iter"
  define R where "R = int (bli_dpacknr cfg)"
  define S where "S = int (bli_dpackmr cfg)"
  have m: "bli_dmr cfg = Suc i + iter"
    using it by (simp add: i_def trsm_u_row_def)
  have inrow: "b + int i * R \<le> b + int i * R + int j * 1 \<and>
               b + int i * R + int j * 1 < b + int i * R + int (bli_dnr cfg)"
    using j by simp
  let ?g = "\<lambda>l rho. axpys_of sc (a11 cfg a amem i l) (b11 cfg b bm l j) rho"
  have fold_eq: "fold (\<lambda>l rho. axpys_of sc (amem (a + int i * 1 + int (i + 1) * S + int l * S))
                    (bm (b + int i * R + int j * 1 + R + int l * R)) rho) [0..<iter] (set0s_of sc) =
                 rho_rows sc (a11 cfg a amem) (b11 cfg b bm) (bli_dmr cfg) i j"
  proof -
    have "bli_dmr cfg = iter + Suc i"
      using m by simp
    then have "[Suc i..<bli_dmr cfg] = map (\<lambda>l. l + Suc i) [0..<iter]"
      by (simp only: map_add_upt)
    then have "rho_rows sc (a11 cfg a amem) (b11 cfg b bm) (bli_dmr cfg) i j =
          fold (\<lambda>l. ?g (l + Suc i)) [0..<iter] (set0s_of sc)"
      by (simp add: rho_rows_def fold_map comp_def)
    also have "\<dots> = fold (\<lambda>l rho. axpys_of sc (amem (a + int i * 1 + int (i + 1) * S + int l * S))
                    (bm (b + int i * R + int j * 1 + R + int l * R)) rho) [0..<iter] (set0s_of sc)"
    proof (rule fold_cong)
      fix l
      have "a + int i * 1 + int (l + Suc i) * S = a + int i * 1 + int (i + 1) * S + int l * S"
        and "b + int (l + Suc i) * R + int j * 1 = b + int i * R + int j * 1 + R + int l * R"
        by (simp_all add: algebra_simps)
      then show "?g (l + Suc i) = (\<lambda>rho. axpys_of sc (amem (a + int i * 1 + int (i + 1) * S + int l * S))
                    (bm (b + int i * R + int j * 1 + R + int l * R)) rho)"
        unfolding a11_def b11_def R_def [symmetric] S_def [symmetric] by (simp only:)
    qed (rule refl)+
    finally show ?thesis by (rule sym)
  qed
  let ?F = "fst (trsm_u_iter sc cfg a b c rs_c cs_c amem iter (bm, cm))"
  let ?p = "b + int i * R + int j * 1"
  note eq = trsm_u_iter_fst [OF le, of sc a b c rs_c cs_c amem iter bm cm, THEN fun_cong, of ?p,
      unfolded i_def [symmetric] R_def [symmetric] S_def [symmetric]]
  have "?F ?p = scals_of sc (amem (a + int i * 1 + int i * S))
      (subs_of sc
         (fold (\<lambda>l rho. axpys_of sc (amem (a + int i * 1 + int (i + 1) * S + int l * S))
                    (bm (?p + R + int l * R)) rho) [0..<iter] (set0s_of sc))
         (bm ?p))"
    using inrow by (simp only: eq if_True simp_thms)
  also have "\<dots> = scals_of sc (a11 cfg a amem i i)
      (subs_of sc (rho_rows sc (a11 cfg a amem) (b11 cfg b bm) (bli_dmr cfg) i j) (b11 cfg b bm i j))"
    unfolding fold_eq by (simp only: b11_def a11_def R_def S_def)
  finally show ?thesis
    unfolding i_def [symmetric] b11_def [of cfg b ?F] R_def [symmetric] .
qed

lemma trsm_u_iter_b_other:
  assumes le: "bli_dnr cfg \<le> bli_dpacknr cfg"
    and p: "\<And>j. j < bli_dnr cfg \<Longrightarrow>
              p \<noteq> b + int (trsm_u_row (bli_dmr cfg) iter) * int (bli_dpacknr cfg) + int j * 1"
  shows "fst (trsm_u_iter sc cfg a b c rs_c cs_c amem iter (bm, cm)) p = bm p"
proof -
  have "\<not> (\<exists>j<bli_dnr cfg. p = b + int (trsm_u_row (bli_dmr cfg) iter) * int (bli_dpacknr cfg) + int j)"
    using p by auto
  then have "\<not> (b + int (trsm_u_row (bli_dmr cfg) iter) * int (bli_dpacknr cfg) \<le> p \<and>
     p < b + int (trsm_u_row (bli_dmr cfg) iter) * int (bli_dpacknr cfg) + int (bli_dnr cfg))"
    unfolding row_range .
  then show ?thesis
    by (simp only: trsm_u_iter_fst [OF le] if_False)
qed

lemma trsm_u_loop_b:
  assumes le: "bli_dnr cfg \<le> bli_dpacknr cfg" and k: "k \<le> bli_dmr cfg"
  shows "(\<forall>i j. bli_dmr cfg - k \<le> i \<and> i < bli_dmr cfg \<and> j < bli_dnr cfg \<longrightarrow>
            b11 cfg b (fst (for_loop 0 k (trsm_u_iter sc cfg a b c rs_c cs_c amem) (b0, c0))) i j =
            back_subst sc (a11 cfg a amem) (b11 cfg b b0) (bli_dmr cfg) i j) \<and>
         (\<forall>p. (\<forall>i j. bli_dmr cfg - k \<le> i \<and> i < bli_dmr cfg \<and> j < bli_dnr cfg \<longrightarrow>
                  p \<noteq> b + int i * int (bli_dpacknr cfg) + int j * 1) \<longrightarrow>
            fst (for_loop 0 k (trsm_u_iter sc cfg a b c rs_c cs_c amem) (b0, c0)) p = b0 p)"
  using k
proof (induction k)
  case 0
  show ?case by auto
next
  case (Suc k)
  let ?m = "bli_dmr cfg" and ?n = "bli_dnr cfg" and ?R = "bli_dpacknr cfg"
  let ?it = "trsm_u_iter sc cfg a b c rs_c cs_c amem"
  let ?st = "for_loop 0 k ?it (b0, c0)"
  let ?X = "back_subst sc (a11 cfg a amem) (b11 cfg b b0) ?m"
  define i where "i = trsm_u_row ?m k"
  have k: "k < ?m" and i: "i < ?m" "?m - k = Suc i" "?m - Suc k = i"
    using Suc.prems by (simp_all add: i_def trsm_u_row_def)
  have step: "for_loop 0 (Suc k) ?it (b0, c0) = ?it k (fst ?st, snd ?st)"
    by (simp add: for_loop_Suc)
  have IHa: "b11 cfg b (fst ?st) i' j = ?X i' j" if "Suc i \<le> i'" "i' < ?m" "j < ?n" for i' j
    using Suc.IH that i(2) k by simp
  have IHb: "fst ?st p = b0 p"
    if "\<And>i' j. Suc i \<le> i' \<Longrightarrow> i' < ?m \<Longrightarrow> j < ?n \<Longrightarrow> p \<noteq> b + int i' * int ?R + int j * 1" for p
    using Suc.IH that i(2) k by simp
  have nR: "j < ?R" if "j < ?n" for j
    using that le by simp
  have row: "b11 cfg b (fst (?it k (fst ?st, snd ?st))) i j = ?X i j" if j: "j < ?n" for j
  proof -
    have "b11 cfg b (fst ?st) i j = b11 cfg b b0 i j"
      unfolding b11_def
    proof (rule IHb)
      fix i' j'
      assume "Suc i \<le> i'" "j' < ?n"
      then show "b + int i * int ?R + int j * 1 \<noteq> b + int i' * int ?R + int j' * 1"
        using b_addr_inj [OF nR [OF j] nR, of j' b i i'] by auto
    qed
    moreover have "rho_rows sc (a11 cfg a amem) (b11 cfg b (fst ?st)) ?m i j =
                   rho_rows sc (a11 cfg a amem) ?X ?m i j"
      by (rule rho_rows_cong) (simp add: IHa j)
    moreover have "b11 cfg b (fst (?it k (fst ?st, snd ?st))) i j =
        scals_of sc (a11 cfg a amem i i)
          (subs_of sc (rho_rows sc (a11 cfg a amem) (b11 cfg b (fst ?st)) ?m i j)
             (b11 cfg b (fst ?st) i j))"
      unfolding i_def by (rule trsm_u_iter_b11 [OF le k j])
    ultimately show ?thesis
      by (simp only: back_subst_rho [of sc _ _ ?m i j])
  qed
  have other: "fst (?it k (fst ?st, snd ?st)) p = fst ?st p"
    if "\<And>j. j < ?n \<Longrightarrow> p \<noteq> b + int i * int ?R + int j * 1" for p
    using that unfolding i_def by (rule trsm_u_iter_b_other [OF le])
  have a': "b11 cfg b (fst (?it k (fst ?st, snd ?st))) i' j = ?X i' j"
    if "i \<le> i'" "i' < ?m" "j < ?n" for i' j
  proof (cases "i' = i")
    case True
    then show ?thesis using row that by simp
  next
    case False
    then have gt: "Suc i \<le> i'" using that by simp
    have "b11 cfg b (fst (?it k (fst ?st, snd ?st))) i' j = b11 cfg b (fst ?st) i' j"
      unfolding b11_def
    proof (rule other)
      fix j'
      assume "j' < ?n"
      then show "b + int i' * int ?R + int j * 1 \<noteq> b + int i * int ?R + int j' * 1"
        using b_addr_inj [OF nR [OF that(3)] nR, of j' b i' i] False by auto
    qed
    then show ?thesis
      using IHa [OF gt that(2,3)] by simp
  qed
  have b': "fst (?it k (fst ?st, snd ?st)) p = b0 p"
    if "\<And>i' j. i \<le> i' \<Longrightarrow> i' < ?m \<Longrightarrow> j < ?n \<Longrightarrow> p \<noteq> b + int i' * int ?R + int j * 1" for p
  proof -
    have "fst (?it k (fst ?st, snd ?st)) p = fst ?st p"
      by (rule other) (use that i(1) in auto)
    also have "\<dots> = b0 p"
      by (rule IHb) (use that in auto)
    finally show ?thesis .
  qed
  show ?case
    unfolding step i(3) using a' b' by blast
qed

lemma trsm_u_col_mirror:
  "\<exists>v. trsm_u_col sc amem c rs_c cs_c cs_a rs_b 1 i nb alpha11 a12t x1 X2 j (bm, cm) =
         (bm(x1 + int j := v), cm(c + int i * rs_c + int j * cs_c := copys_of sc v))"
  unfolding trsm_u_col_eq Let_def by (rule exI) (rule refl)

lemma trsm_u_row_c:
  assumes "inj_on (\<lambda>j. c + int i * rs_c + int j * cs_c) {..<n'}"
  shows "(\<forall>j<n'. snd (for_loop 0 n' (trsm_u_col sc amem c rs_c cs_c cs_a rs_b 1 i nb alpha11 a12t x1 X2)
                          (bm, cm)) (c + int i * rs_c + int j * cs_c) =
                  copys_of sc (fst (for_loop 0 n' (trsm_u_col sc amem c rs_c cs_c cs_a rs_b 1 i nb alpha11 a12t x1 X2)
                          (bm, cm)) (x1 + int j))) \<and>
         (\<forall>p. (\<forall>j<n'. p \<noteq> c + int i * rs_c + int j * cs_c) \<longrightarrow>
              snd (for_loop 0 n' (trsm_u_col sc amem c rs_c cs_c cs_a rs_b 1 i nb alpha11 a12t x1 X2)
                          (bm, cm)) p = cm p)"
  using assms
proof (induction n')
  case 0
  show ?case by simp
next
  case (Suc n')
  let ?col = "trsm_u_col sc amem c rs_c cs_c cs_a rs_b 1 i nb alpha11 a12t x1 X2"
  let ?st = "for_loop 0 n' ?col (bm, cm)"
  let ?g = "\<lambda>j. c + int i * rs_c + int j * cs_c"
  have inj': "inj_on ?g {..<n'}"
    by (rule inj_on_subset [OF Suc.prems]) auto
  have new: "?g j \<noteq> ?g n'" if "j < n'" for j
    using inj_onD [OF Suc.prems, of j n'] that by auto
  note IH = Suc.IH [OF inj']
  obtain v where "?col n' (fst ?st, snd ?st) =
      ((fst ?st)(x1 + int n' := v), (snd ?st)(?g n' := copys_of sc v))"
    using trsm_u_col_mirror [of sc amem c rs_c cs_c cs_a rs_b i nb alpha11 a12t x1 X2 n'
        "fst ?st" "snd ?st"]
    by (elim exE)
  then have step: "for_loop 0 (Suc n') ?col (bm, cm) =
      ((fst ?st)(x1 + int n' := v), (snd ?st)(?g n' := copys_of sc v))"
    by (simp add: for_loop_Suc)
  show ?case
    unfolding step using IH new by (auto simp: less_Suc_eq)
qed

lemma trsm_u_iter_c:
  assumes "inj_on (\<lambda>j. c + int (trsm_u_row (bli_dmr cfg) iter) * rs_c + int j * cs_c) {..<bli_dnr cfg}"
  shows "(\<forall>j<bli_dnr cfg.
            c11 c rs_c cs_c (snd (trsm_u_iter sc cfg a b c rs_c cs_c amem iter (bm, cm)))
              (trsm_u_row (bli_dmr cfg) iter) j =
            copys_of sc (b11 cfg b (fst (trsm_u_iter sc cfg a b c rs_c cs_c amem iter (bm, cm)))
              (trsm_u_row (bli_dmr cfg) iter) j)) \<and>
         (\<forall>p. (\<forall>j<bli_dnr cfg. p \<noteq> c + int (trsm_u_row (bli_dmr cfg) iter) * rs_c + int j * cs_c) \<longrightarrow>
              snd (trsm_u_iter sc cfg a b c rs_c cs_c amem iter (bm, cm)) p = cm p)"
  unfolding trsm_u_iter_def Let_def c11_def b11_def
  using trsm_u_row_c [OF assms] by simp

lemma c_addr_inj:
  assumes "inj_on (\<lambda>(i, j). c + int i * rs_c + int j * cs_c) ({..<m} \<times> {..<n})"
    and "i < m" "i' < m" "j < n" "j' < n"
    and "c + int i * rs_c + int j * cs_c = c + int i' * rs_c + int j' * cs_c"
  shows "i = i' \<and> j = j'"
  using inj_onD [OF assms(1), of "(i, j)" "(i', j')"] assms(2-) by simp

lemma trsm_u_loop_c:
  assumes le: "bli_dnr cfg \<le> bli_dpacknr cfg" and k: "k \<le> bli_dmr cfg"
    and inj: "inj_on (\<lambda>(i, j). c + int i * rs_c + int j * cs_c) ({..<bli_dmr cfg} \<times> {..<bli_dnr cfg})"
  shows "(\<forall>i j. bli_dmr cfg - k \<le> i \<and> i < bli_dmr cfg \<and> j < bli_dnr cfg \<longrightarrow>
            c11 c rs_c cs_c (snd (for_loop 0 k (trsm_u_iter sc cfg a b c rs_c cs_c amem) (b0, c0))) i j =
            copys_of sc (b11 cfg b (fst (for_loop 0 k (trsm_u_iter sc cfg a b c rs_c cs_c amem) (b0, c0))) i j)) \<and>
         (\<forall>p. (\<forall>i j. bli_dmr cfg - k \<le> i \<and> i < bli_dmr cfg \<and> j < bli_dnr cfg \<longrightarrow>
                  p \<noteq> c + int i * rs_c + int j * cs_c) \<longrightarrow>
            snd (for_loop 0 k (trsm_u_iter sc cfg a b c rs_c cs_c amem) (b0, c0)) p = c0 p)"
  using k
proof (induction k)
  case 0
  show ?case by auto
next
  case (Suc k)
  let ?m = "bli_dmr cfg" and ?n = "bli_dnr cfg" and ?R = "bli_dpacknr cfg"
  let ?it = "trsm_u_iter sc cfg a b c rs_c cs_c amem"
  let ?st = "for_loop 0 k ?it (b0, c0)"
  let ?st' = "?it k (fst ?st, snd ?st)"
  define i where "i = trsm_u_row ?m k"
  have k: "k < ?m" and i: "i < ?m" "?m - k = Suc i" "?m - Suc k = i"
    using Suc.prems by (simp_all add: i_def trsm_u_row_def)
  have step: "for_loop 0 (Suc k) ?it (b0, c0) = ?st'"
    by (simp add: for_loop_Suc)
  have IHa: "c11 c rs_c cs_c (snd ?st) i' j = copys_of sc (b11 cfg b (fst ?st) i' j)"
    if "Suc i \<le> i'" "i' < ?m" "j < ?n" for i' j
    using Suc.IH that i(2) k by simp
  have IHb: "snd ?st p = c0 p"
    if "\<And>i' j. Suc i \<le> i' \<Longrightarrow> i' < ?m \<Longrightarrow> j < ?n \<Longrightarrow> p \<noteq> c + int i' * rs_c + int j * cs_c" for p
    using Suc.IH that i(2) k by simp
  have nR: "j < ?R" if "j < ?n" for j
    using that le by simp
  have inj_row: "inj_on (\<lambda>j. c + int i * rs_c + int j * cs_c) {..<?n}"
    unfolding inj_on_def using c_addr_inj [OF inj i(1) i(1)] by auto
  note row = trsm_u_iter_c [of c cfg k rs_c cs_c sc a b amem "fst ?st" "snd ?st",
      unfolded i_def [symmetric], OF inj_row]
  have a': "c11 c rs_c cs_c (snd ?st') i' j = copys_of sc (b11 cfg b (fst ?st') i' j)"
    if "i \<le> i'" "i' < ?m" "j < ?n" for i' j
  proof (cases "i' = i")
    case True
    then show ?thesis using row that(3) by simp
  next
    case False
    then have gt: "Suc i \<le> i'" using that by simp
    have "c + int i' * rs_c + int j * cs_c \<noteq> c + int i * rs_c + int j' * cs_c" if "j' < ?n" for j'
      using c_addr_inj [OF inj \<open>i' < ?m\<close> i(1) \<open>j < ?n\<close> that] False by auto
    then have "c11 c rs_c cs_c (snd ?st') i' j = c11 c rs_c cs_c (snd ?st) i' j"
      unfolding c11_def using row by simp
    moreover have "b11 cfg b (fst ?st') i' j = b11 cfg b (fst ?st) i' j"
      unfolding b11_def i_def
    proof (rule trsm_u_iter_b_other [OF le])
      fix j'
      assume "j' < ?n"
      then show "b + int i' * int ?R + int j * 1 \<noteq> b + int (trsm_u_row ?m k) * int ?R + int j' * 1"
        using b_addr_inj [OF nR [OF that(3)] nR, of j' b i' i] False by (auto simp: i_def)
    qed
    ultimately show ?thesis
      using IHa [OF gt that(2,3)] by simp
  qed
  have b': "snd ?st' p = c0 p"
    if "\<And>i' j. i \<le> i' \<Longrightarrow> i' < ?m \<Longrightarrow> j < ?n \<Longrightarrow> p \<noteq> c + int i' * rs_c + int j * cs_c" for p
  proof -
    have "snd ?st' p = snd ?st p"
      using row that [of i] i(1) by simp
    also have "\<dots> = c0 p"
      by (rule IHb) (use that in auto)
    finally show ?thesis .
  qed
  show ?case
    unfolding step i(3) using a' b' by blast
qed

lemma trsm_u_result:
  assumes le: "bli_dnr cfg \<le> bli_dpacknr cfg"
    and ij: "i < bli_dmr cfg" "j < bli_dnr cfg"
  shows "b11 cfg b (fst (trsm_u_opt_mxn sc cfg a b c rs_c cs_c amem (b0, c0))) i j =
           back_subst sc (a11 cfg a amem) (b11 cfg b b0) (bli_dmr cfg) i j"
    and "inj_on (\<lambda>(i, j). c + int i * rs_c + int j * cs_c) ({..<bli_dmr cfg} \<times> {..<bli_dnr cfg}) \<Longrightarrow>
         c11 c rs_c cs_c (snd (trsm_u_opt_mxn sc cfg a b c rs_c cs_c amem (b0, c0))) i j =
           copys_of sc (back_subst sc (a11 cfg a amem) (b11 cfg b b0) (bli_dmr cfg) i j)"
proof -
  show b: "b11 cfg b (fst (trsm_u_opt_mxn sc cfg a b c rs_c cs_c amem (b0, c0))) i j =
           back_subst sc (a11 cfg a amem) (b11 cfg b b0) (bli_dmr cfg) i j"
    unfolding trsm_u_opt_mxn_def
    using trsm_u_loop_b [OF le order_refl, of b sc a c rs_c cs_c amem b0 c0] ij by simp
  show "c11 c rs_c cs_c (snd (trsm_u_opt_mxn sc cfg a b c rs_c cs_c amem (b0, c0))) i j =
           copys_of sc (back_subst sc (a11 cfg a amem) (b11 cfg b b0) (bli_dmr cfg) i j)"
    if inj: "inj_on (\<lambda>(i, j). c + int i * rs_c + int j * cs_c) ({..<bli_dmr cfg} \<times> {..<bli_dnr cfg})"
    using trsm_u_loop_c [OF le order_refl inj, of sc a b amem b0 c0] ij b
    unfolding trsm_u_opt_mxn_def by simp
qed

lemma row_major_inj:
  assumes "n \<le> R"
  shows "inj_on (\<lambda>(i, j). c + int i * int R + int j * 1) ({..<m} \<times> {..<n})"
proof (rule inj_onI)
  fix x y :: "nat \<times> nat"
  assume x: "x \<in> {..<m} \<times> {..<n}" and y: "y \<in> {..<m} \<times> {..<n}"
    and eq: "(case x of (i, j) \<Rightarrow> c + int i * int R + int j * 1) =
             (case y of (i, j) \<Rightarrow> c + int i * int R + int j * 1)"
  obtain i j i' j' where xy: "x = (i, j)" "y = (i', j')"
    by (cases x, cases y) blast
  have "j < R" "j' < R"
    using x y assms by (auto simp: xy)
  moreover have "c + int i * int R + int j * 1 = c + int i' * int R + int j' * 1"
    using eq by (simp add: xy)
  ultimately have "i = i' \<and> j = j'"
    by (rule b_addr_inj)
  then show "x = y"
    by (simp add: xy)
qed

lemma trsm_u_rows_rev: "map (trsm_u_row m) [0..<m] = rev [0..<m]"
  by (rule nth_equalityI) (simp_all add: trsm_u_row_def rev_nth)

lemma trsm_u_rows_behind:
  assumes "iter < m"
  shows "trsm_u_row m ` {0..<iter} = {Suc (trsm_u_row m iter)..<m}"
proof (rule set_eqI)
  fix l
  show "l \<in> trsm_u_row m ` {0..<iter} \<longleftrightarrow> l \<in> {Suc (trsm_u_row m iter)..<m}"
  proof
    assume "l \<in> trsm_u_row m ` {0..<iter}"
    then show "l \<in> {Suc (trsm_u_row m iter)..<m}"
      using assms by (auto simp: trsm_u_row_def)
  next
    assume l: "l \<in> {Suc (trsm_u_row m iter)..<m}"
    then have "m - l - 1 \<in> {0..<iter}" and "l = trsm_u_row m (m - l - 1)"
      using assms by (auto simp: trsm_u_row_def)
    then show "l \<in> trsm_u_row m ` {0..<iter}"
      by (rule_tac image_eqI)
  qed
qed

lemma rho11_loop_rows:
  assumes it: "iter < bli_dmr cfg"
  shows "rho11_loop sc amem bm
           (a + int (trsm_u_row (bli_dmr cfg) iter) * 1
              + int (trsm_u_row (bli_dmr cfg) iter + 1) * int (bli_dpackmr cfg))
           (b + int (trsm_u_row (bli_dmr cfg) iter + 1) * int (bli_dpacknr cfg) + 0 * 1
              + 0 * int (bli_dpacknr cfg) + int j * 1)
           (int (bli_dpackmr cfg)) (int (bli_dpacknr cfg)) (trsm_u_n_behind iter) =
         rho_rows sc (a11 cfg a amem) (b11 cfg b bm) (bli_dmr cfg) (trsm_u_row (bli_dmr cfg) iter) j"
proof -
  define i where "i = trsm_u_row (bli_dmr cfg) iter"
  define R where "R = int (bli_dpacknr cfg)"
  define S where "S = int (bli_dpackmr cfg)"
  have "bli_dmr cfg = iter + Suc i"
    using it by (simp add: i_def trsm_u_row_def)
  then have "[Suc i..<bli_dmr cfg] = map (\<lambda>l. l + Suc i) [0..<iter]"
    by (simp only: map_add_upt)
  then have "rho_rows sc (a11 cfg a amem) (b11 cfg b bm) (bli_dmr cfg) i j =
        fold (\<lambda>l rho. axpys_of sc (a11 cfg a amem i (l + Suc i)) (b11 cfg b bm (l + Suc i) j) rho)
          [0..<iter] (set0s_of sc)"
    by (simp add: rho_rows_def fold_map comp_def)
  also have "\<dots> = fold (\<lambda>l rho. axpys_of sc (amem (a + int i * 1 + int (i + 1) * S + int l * S))
                    (bm (b + int (i + 1) * R + 0 * 1 + 0 * R + int j * 1 + int l * R)) rho)
                  [0..<iter] (set0s_of sc)"
  proof (rule fold_cong)
    fix l
    have "a + int i * 1 + int (l + Suc i) * S = a + int i * 1 + int (i + 1) * S + int l * S"
      and "b + int (l + Suc i) * R + int j * 1 =
           b + int (i + 1) * R + 0 * 1 + 0 * R + int j * 1 + int l * R"
      by (simp_all add: algebra_simps)
    then show "(\<lambda>rho. axpys_of sc (a11 cfg a amem i (l + Suc i)) (b11 cfg b bm (l + Suc i) j) rho) =
               (\<lambda>rho. axpys_of sc (amem (a + int i * 1 + int (i + 1) * S + int l * S))
                    (bm (b + int (i + 1) * R + 0 * 1 + 0 * R + int j * 1 + int l * R)) rho)"
      unfolding a11_def b11_def R_def [symmetric] S_def [symmetric] by (simp only:)
  qed (rule refl)+
  finally show ?thesis
    unfolding rho11_loop_fold trsm_u_n_behind_def i_def [symmetric] R_def [symmetric]
      S_def [symmetric] by (rule sym)
qed

lemma trsm_u_iter_a_cong:
  assumes up: "\<And>i l. i \<le> l \<Longrightarrow> l < bli_dmr cfg \<Longrightarrow> a11 cfg a amem i l = a11 cfg a amem' i l"
    and it: "iter < bli_dmr cfg"
  shows "trsm_u_iter sc cfg a b c rs_c cs_c amem iter = trsm_u_iter sc cfg a b c rs_c cs_c amem' iter"
proof -
  define i where "i = trsm_u_row (bli_dmr cfg) iter"
  define S where "S = int (bli_dpackmr cfg)"
  have m: "bli_dmr cfg = Suc i + iter"
    using it by (simp add: i_def trsm_u_row_def)
  have diag: "amem (a + int i * 1 + int i * S) = amem' (a + int i * 1 + int i * S)"
    using up [of i i] m by (simp add: a11_def S_def)
  have off: "amem (a + int i * 1 + int (i + 1) * S + int l * S) =
             amem' (a + int i * 1 + int (i + 1) * S + int l * S)" if "l < iter" for l
  proof -
    have eq: "a + int i * 1 + int (i + 1) * S + int l * S = a + int i * 1 + int (Suc i + l) * S"
      by (simp add: algebra_simps)
    have "a11 cfg a amem i (Suc i + l) = a11 cfg a amem' i (Suc i + l)"
      by (rule up) (use that m in simp_all)
    then have "amem (a + int i * 1 + int (Suc i + l) * S) = amem' (a + int i * 1 + int (Suc i + l) * S)"
      unfolding a11_def S_def .
    then show ?thesis
      unfolding eq .
  qed
  have rho: "rho11_loop sc amem bm (a + int i * 1 + int (i + 1) * S) x21 S R iter =
             rho11_loop sc amem' bm (a + int i * 1 + int (i + 1) * S) x21 S R iter" for bm x21 R
    unfolding rho11_loop_fold
  proof (rule fold_cong)
    fix l
    assume "l \<in> set [0..<iter]"
    then have "l < iter"
      by simp
    then show "(\<lambda>rho. axpys_of sc (amem (a + int i * 1 + int (i + 1) * S + int l * S))
                  (bm (x21 + int l * R)) rho) =
               (\<lambda>rho. axpys_of sc (amem' (a + int i * 1 + int (i + 1) * S + int l * S))
                  (bm (x21 + int l * R)) rho)"
      by (simp only: off)
  qed (rule refl)+
  have col: "trsm_u_col sc amem c rs_c cs_c S R cb i iter (a + int i * 1 + int i * S)
               (a + int i * 1 + int (i + 1) * S) x1 X2 =
             trsm_u_col sc amem' c rs_c cs_c S R cb i iter (a + int i * 1 + int i * S)
               (a + int i * 1 + int (i + 1) * S) x1 X2" for R cb x1 X2
    by (intro ext) (simp only: trsm_u_col_def Let_def rho diag)
  show ?thesis
    by (rule ext)
      (simp only: trsm_u_iter_def Let_def trsm_u_n_behind_def i_def [symmetric] S_def [symmetric] col)
qed

lemma trsm_u_empty:
  assumes "bli_dmr cfg = 0 \<or> bli_dnr cfg = 0"
  shows "trsm_u_opt_mxn sc cfg a b c rs_c cs_c amem s = s"
proof (cases "bli_dmr cfg = 0")
  case True
  then show ?thesis
    by (simp add: trsm_u_opt_mxn_def)
next
  case False
  then have "bli_dnr cfg = 0"
    using assms by simp
  then have "trsm_u_iter sc cfg a b c rs_c cs_c amem iter t = t" for iter t
    by (simp add: trsm_u_iter_def Let_def)
  then show ?thesis
    unfolding trsm_u_opt_mxn_def by (rule for_loop_id)
qed

text \<open>The state after \<open>iter\<close> outer iterations: the rows behind hold their final values,
  the current row still holds the input.\<close>

lemma trsm_u_state_behind:
  assumes le: "bli_dnr cfg \<le> bli_dpacknr cfg" and it: "iter < bli_dmr cfg" and j: "j < bli_dnr cfg"
  shows "\<And>l. trsm_u_row (bli_dmr cfg) iter < l \<Longrightarrow> l < bli_dmr cfg \<Longrightarrow>
           b11 cfg b (fst (for_loop 0 iter (trsm_u_iter sc cfg a b c rs_c cs_c amem) (b0, c0))) l j =
           b11 cfg b (fst (trsm_u_opt_mxn sc cfg a b c rs_c cs_c amem (b0, c0))) l j"
    and "b11 cfg b (fst (for_loop 0 iter (trsm_u_iter sc cfg a b c rs_c cs_c amem) (b0, c0)))
           (trsm_u_row (bli_dmr cfg) iter) j = b11 cfg b b0 (trsm_u_row (bli_dmr cfg) iter) j"
proof -
  define i where "i = trsm_u_row (bli_dmr cfg) iter"
  have m: "bli_dmr cfg - iter = Suc i" and im: "i < bli_dmr cfg"
    using it by (simp_all add: i_def trsm_u_row_def)
  have k: "iter \<le> bli_dmr cfg"
    using it by simp
  note loop = trsm_u_loop_b [OF le k, where sc = sc and a = a and b = b and c = c and rs_c = rs_c
      and cs_c = cs_c and amem = amem and ?b0.0 = b0 and ?c0.0 = c0, unfolded m]
  show "b11 cfg b (fst (for_loop 0 iter (trsm_u_iter sc cfg a b c rs_c cs_c amem) (b0, c0))) l j =
        b11 cfg b (fst (trsm_u_opt_mxn sc cfg a b c rs_c cs_c amem (b0, c0))) l j"
    if "trsm_u_row (bli_dmr cfg) iter < l" "l < bli_dmr cfg" for l
  proof -
    have "Suc i \<le> l \<and> l < bli_dmr cfg \<and> j < bli_dnr cfg"
      using that j by (simp add: i_def)
    then have "b11 cfg b (fst (for_loop 0 iter (trsm_u_iter sc cfg a b c rs_c cs_c amem) (b0, c0))) l j =
               back_subst sc (a11 cfg a amem) (b11 cfg b b0) (bli_dmr cfg) l j"
      using loop [THEN conjunct1] by blast
    then show ?thesis
      by (simp only: trsm_u_result(1) [OF le that(2) j])
  qed
  have "b + int i * int (bli_dpacknr cfg) + int j * 1 \<noteq>
        b + int i' * int (bli_dpacknr cfg) + int j' * 1"
    if "Suc i \<le> i' \<and> i' < bli_dmr cfg \<and> j' < bli_dnr cfg" for i' j'
  proof
    assume eq: "b + int i * int (bli_dpacknr cfg) + int j * 1 =
                b + int i' * int (bli_dpacknr cfg) + int j' * 1"
    have "j < bli_dpacknr cfg" "j' < bli_dpacknr cfg"
      using j that le by simp_all
    then have "i = i' \<and> j = j'"
      using eq by (rule b_addr_inj)
    then show False
      using that by simp
  qed
  then have "fst (for_loop 0 iter (trsm_u_iter sc cfg a b c rs_c cs_c amem) (b0, c0))
               (b + int i * int (bli_dpacknr cfg) + int j * 1) =
             b0 (b + int i * int (bli_dpacknr cfg) + int j * 1)"
    using loop [THEN conjunct2] by blast
  then show "b11 cfg b (fst (for_loop 0 iter (trsm_u_iter sc cfg a b c rs_c cs_c amem) (b0, c0)))
           (trsm_u_row (bli_dmr cfg) iter) j = b11 cfg b b0 (trsm_u_row (bli_dmr cfg) iter) j"
    unfolding b11_def i_def [symmetric] .
qed

lemma trsm_u_col_state:
  assumes le: "bli_dnr cfg \<le> bli_dpacknr cfg" and j: "j < bli_dnr cfg"
    and p: "b + int (i + 1) * int (bli_dpacknr cfg) \<le> p \<or>
            p = b + int i * int (bli_dpacknr cfg) + int j * 1"
  shows "fst (for_loop 0 j
            (trsm_u_col sc amem c rs_c cs_c cs_a (int (bli_dpacknr cfg)) 1 i nb alpha11 a12t
               (b + int i * int (bli_dpacknr cfg) + 0 * 1)
               (b + int (i + 1) * int (bli_dpacknr cfg) + 0 * 1)) s) p = fst s p"
proof -
  define R where "R = int (bli_dpacknr cfg)"
  define x1 where "x1 = b + int i * R + 0 * 1"
  obtain bm cm where s: "s = (bm, cm)"
    by (cases s)
  have X2: "b + int (i + 1) * R + 0 * 1 = x1 + R"
    by (simp add: x1_def algebra_simps)
  have jR: "int j \<le> R"
    using le j by (simp add: R_def)
  have "x1 + int j \<le> p"
    using p jR unfolding R_def [symmetric] by (auto simp: x1_def algebra_simps)
  then have out: "\<not> (x1 \<le> p \<and> p < x1 + int j)"
    by simp
  have "fst (for_loop 0 j (trsm_u_col sc amem c rs_c cs_c cs_a R 1 i nb alpha11 a12t x1 (x1 + R))
          (bm, cm)) p = bm p"
    unfolding trsm_u_row_b_aux [OF jR] using out by (simp only: if_False)
  then show ?thesis
    unfolding R_def [symmetric] x1_def [symmetric] X2 s by simp
qed

lemma kernel_fold_rho:
  assumes le: "bli_dnr cfg \<le> bli_dpacknr cfg" and ij: "i < bli_dmr cfg" "j < bli_dnr cfg"
    and X: "\<And>l. i < l \<Longrightarrow> l < bli_dmr cfg \<Longrightarrow>
              X l j = back_subst bli_d (a11 cfg a amem) (b11 cfg b b0) (bli_dmr cfg) l j"
  shows "back_subst bli_d (a11 cfg a amem) (b11 cfg b b0) (bli_dmr cfg) i j =
         bli_dscals (a11 cfg a amem i i)
           (bli_dsubs (fold (\<lambda>l rho. bli_daxpys (a11 cfg a amem i l) (X l j) rho)
                         [Suc i..<bli_dmr cfg] bli_dset0s)
              (b11 cfg b b0 i j))"
proof -
  have "fold (\<lambda>l rho. bli_daxpys (a11 cfg a amem i l) (X l j) rho) [Suc i..<bli_dmr cfg] bli_dset0s =
        rho_rows bli_d (a11 cfg a amem) X (bli_dmr cfg) i j"
    by (simp add: rho_rows_def)
  moreover have "rho_rows bli_d (a11 cfg a amem) X (bli_dmr cfg) i j =
        rho_rows bli_d (a11 cfg a amem)
          (back_subst bli_d (a11 cfg a amem) (b11 cfg b b0) (bli_dmr cfg)) (bli_dmr cfg) i j"
    by (rule rho_rows_cong) (rule X)
  ultimately have rho: "fold (\<lambda>l rho. bli_daxpys (a11 cfg a amem i l) (X l j) rho)
            [Suc i..<bli_dmr cfg] bli_dset0s =
        rho_rows bli_d (a11 cfg a amem)
          (back_subst bli_d (a11 cfg a amem) (b11 cfg b b0) (bli_dmr cfg)) (bli_dmr cfg) i j"
    by (rule trans)
  show ?thesis
    unfolding rho by (subst back_subst_rho) simp
qed

subsection \<open>Exact arithmetic\<close>

lemma fold_add_sum:
  fixes f :: "nat \<Rightarrow> real"
  shows "fold (\<lambda>l rho. rho + f l) [a..<b] z = z + (\<Sum>l = a..<b. f l)"
proof -
  have "fold (\<lambda>l rho. rho + f l) xs z = z + sum_list (map f xs)" for xs
    by (induction xs arbitrary: z) (simp_all add: add.assoc)
  then show ?thesis
    by (simp add: interv_sum_list_conv_sum_set_nat)
qed

lemma rho_rows_exact:
  "rho_rows exact_arith A X m i j = (\<Sum>l = Suc i..<m. A i l * X l j)"
  by (simp add: rho_rows_def fold_add_sum)

lemma upper_row_sum:
  fixes u :: "nat \<Rightarrow> real"
  assumes "i < m" and "\<And>l. l < i \<Longrightarrow> u l = 0"
  shows "(\<Sum>l<m. u l * Y l) = u i * Y i + (\<Sum>l = Suc i..<m. u l * Y l)"
proof -
  have "(\<Sum>l<m. u l * Y l) = (\<Sum>l = 0..<i. u l * Y l) + (\<Sum>l = i..<m. u l * Y l)"
    unfolding lessThan_atLeast0 using assms(1) by (simp add: sum.atLeastLessThan_concat)
  moreover have "(\<Sum>l = 0..<i. u l * Y l) = 0"
    by (rule sum.neutral) (simp add: assms(2))
  moreover have "(\<Sum>l = i..<m. u l * Y l) = u i * Y i + (\<Sum>l = Suc i..<m. u l * Y l)"
    using assms(1) by (simp add: sum.atLeast_Suc_lessThan)
  ultimately show ?thesis
    by simp
qed

lemma recurrence_solves:
  assumes "stores_upper m U A" and "i < m"
    and rec: "X i = (B i - (\<Sum>l = Suc i..<m. A i l * X l)) * A i i"
  shows "(\<Sum>l<m. U i l * X l) = B i"
proof -
  have d: "U i i * A i i = 1" and z: "\<And>l. l < i \<Longrightarrow> U i l = 0"
    and u: "\<And>l. i < l \<Longrightarrow> l < m \<Longrightarrow> A i l = U i l"
    using assms(1,2) by (auto simp: stores_upper_def)
  define S where "S = (\<Sum>l = Suc i..<m. U i l * X l)"
  have rho: "(\<Sum>l = Suc i..<m. A i l * X l) = S"
    unfolding S_def by (rule sum.cong) (simp_all add: u)
  have x: "X i = (B i - S) * A i i"
    using rec by (simp only: rho)
  have "U i i * X i = (B i - S) * (U i i * A i i)"
    unfolding x by (simp only: mult_ac)
  then have "U i i * X i = B i - S"
    by (simp add: d)
  then show ?thesis
    by (simp add: upper_row_sum [where u = "U i", OF assms(2) z] S_def)
qed

lemma recurrence_unique:
  assumes st: "stores_upper m U A"
    and rec: "\<And>i. i < m \<Longrightarrow> X i = (B i - (\<Sum>l = Suc i..<m. A i l * X l)) * A i i"
    and sol: "\<And>i. i < m \<Longrightarrow> (\<Sum>l<m. U i l * Y l) = B i"
    and "i < m"
  shows "Y i = X i"
  using \<open>i < m\<close>
proof (induction "m - i" arbitrary: i rule: less_induct)
  case less
  have d: "U i i * A i i = 1" and z: "\<And>l. l < i \<Longrightarrow> U i l = 0"
    and u: "\<And>l. i < l \<Longrightarrow> l < m \<Longrightarrow> A i l = U i l"
    using st less.prems by (auto simp: stores_upper_def)
  have above: "Y l = X l" if "Suc i \<le> l" "l < m" for l
    by (rule less.hyps) (use that less.prems in auto)
  have "U i i * Y i + (\<Sum>l = Suc i..<m. U i l * Y l) = B i"
    using sol [OF less.prems] by (simp add: upper_row_sum [where u = "U i", OF less.prems z])
  moreover have "(\<Sum>l = Suc i..<m. U i l * Y l) = (\<Sum>l = Suc i..<m. A i l * X l)"
    by (rule sum.cong) (simp_all add: u above)
  ultimately have "U i i * Y i = B i - (\<Sum>l = Suc i..<m. A i l * X l)"
    by simp
  then have "(U i i * Y i) * A i i = X i"
    by (subst rec [OF less.prems]) simp
  moreover have "(U i i * Y i) * A i i = Y i * (U i i * A i i)"
    by (simp add: mult.commute mult.left_commute)
  ultimately show ?case
    by (simp add: d)
qed

subsection \<open>The identity in double precision\<close>

lemma rho_rows_zero:
  assumes "\<And>l. i < l \<Longrightarrow> l < m \<Longrightarrow> is_zero (A i l)"
    and "\<And>l. i < l \<Longrightarrow> l < m \<Longrightarrow> finite_double (X l j)"
  shows "rho_rows bli_d A X m i j = Fin 0"
proof -
  have "fold (\<lambda>l rho. bli_daxpys (A i l) (X l j) rho) xs (Fin 0) = Fin 0"
    if "\<And>l. l \<in> set xs \<Longrightarrow> is_zero (A i l) \<and> finite_double (X l j)" for xs
    using that by (induction xs) (simp_all add: daxpys_zero)
  from this [of "[Suc i..<m]"] show ?thesis
    using assms by (simp add: rho_rows_def bli_dset0s_def)
qed

lemma back_subst_identity:
  assumes diag: "\<And>i. i < m \<Longrightarrow> A i i = Fin 1"
    and off: "\<And>i l. i < l \<Longrightarrow> l < m \<Longrightarrow> is_zero (A i l)"
    and fin: "\<And>i. i < m \<Longrightarrow> finite_double (B i j)"
    and "i < m"
  shows "back_subst bli_d A B m i j = B i j"
  using \<open>i < m\<close>
proof (induction "m - i" arbitrary: i rule: less_induct)
  case less
  have above: "back_subst bli_d A B m l j = B l j" if "i < l" "l < m" for l
    by (rule less.hyps) (use that less.prems in auto)
  have "rho_rows bli_d A (back_subst bli_d A B m) m i j = Fin 0"
    by (rule rho_rows_zero) (simp_all add: off above fin)
  then show ?case
    by (subst back_subst_rho) (simp add: diag less.prems dsubs_zero dscals_one fin)
qed

subsection \<open>The example blocks\<close>

lemmas kernel_eval = bli_dtrsm_u_opt_mxn_def trsm_u_opt_mxn_def trsm_u_iter_def trsm_u_col_def
  rho11_loop_def rho_iter_def trsm_u_row_def trsm_u_n_behind_def Let_def for_loop.simps

lemmas macro_eval = bli_dset0s_def bli_daxpys_def bli_dsubs_def bli_dscals_def bli_dcopys_def
  d_add_def d_mul_def d_sub_def is_inf_def is_zero_def zero_signed_def inf_signed_def

lemma kernel_2x2_split:
  "bli_dtrsm_u_opt_mxn cfg_2x2 a b c rs_c cs_c amem s =
   trsm_u_iter bli_d cfg_2x2 a b c rs_c cs_c amem 1
     (for_loop 0 1 (trsm_u_iter bli_d cfg_2x2 a b c rs_c cs_c amem) s)"
proof -
  have m: "bli_dmr cfg_2x2 = Suc 1"
    by (simp add: cfg_2x2_def)
  show ?thesis
    unfolding bli_dtrsm_u_opt_mxn_def trsm_u_opt_mxn_def m by (rule for_loop_Suc) simp
qed

lemma kernel_2x2_first:
  "for_loop 0 1 (trsm_u_iter bli_d cfg_2x2 0 0 0 2 1 a_2x2) (b_2x2, \<lambda>p. Fin 0) =
   (\<lambda>p. if p = 2 then Fin (1 / 2) else if p = 3 then Fin (3 / 4) else Fin (real_of_int p),
    \<lambda>p. if p = 2 then Fin (1 / 2) else if p = 3 then Fin (3 / 4) else Fin 0)"
  by (simp add: kernel_eval cfg_2x2_def a_2x2_def b_2x2_def fun_eq_iff)
    (simp add: macro_eval rnd_vals)

lemma kernel_2x2:
  "bli_dtrsm_u_opt_mxn cfg_2x2 0 0 0 2 1 a_2x2 (b_2x2, \<lambda>p. Fin 0) =
   (\<lambda>p. if p = 0 then Fin (- (3 / 4)) else if p = 1 then Fin (- (5 / 8))
         else if p = 2 then Fin (1 / 2) else if p = 3 then Fin (3 / 4) else Fin (real_of_int p),
    \<lambda>p. if p = 0 then Fin (- (3 / 4)) else if p = 1 then Fin (- (5 / 8))
         else if p = 2 then Fin (1 / 2) else if p = 3 then Fin (3 / 4) else Fin 0)"
  unfolding kernel_2x2_split kernel_2x2_first
  by (simp add: kernel_eval cfg_2x2_def a_2x2_def fun_eq_iff) (simp add: macro_eval rnd_vals)

lemma kernel_1x1_tenth:
  "bli_dtrsm_u_opt_mxn cfg_1x1 0 0 0 1 1 (\<lambda>p. Fin (3602879701896397 / 2 ^ 55))
     (\<lambda>p. Fin 3, \<lambda>p. Fin 0) =
   (\<lambda>p. if p = 0 then Fin (5404319552844596 / 2 ^ 54) else Fin 3,
    \<lambda>p. if p = 0 then Fin (5404319552844596 / 2 ^ 54) else Fin 0)"
proof -
  have "bli_dscals (Fin (3602879701896397 / 2 ^ 55)) (bli_dsubs bli_dset0s (Fin 3)) =
        Fin (5404319552844596 / 2 ^ 54)"
    using d_mul_tenth by (simp add: macro_eval rnd_vals)
  then show ?thesis
    by (simp add: kernel_eval cfg_1x1_def fun_eq_iff bli_dcopys_def)
qed

lemma kernel_2x2_inf_first:
  "for_loop 0 1 (trsm_u_iter bli_d cfg_2x2 0 0 0 2 1 id_2x2) (b_inf, \<lambda>p. Fin 0) =
   (b_inf, \<lambda>p. if p = 2 then PosInf else if p = 3 then Fin 1 else Fin 0)"
  by (simp add: kernel_eval cfg_2x2_def id_2x2_def b_inf_def fun_eq_iff)
    (simp add: macro_eval rnd_vals)

lemma kernel_2x2_inf:
  "c11 0 2 1 (snd (bli_dtrsm_u_opt_mxn cfg_2x2 0 0 0 2 1 id_2x2 (b_inf, \<lambda>p. Fin 0))) 0 0 = NaN"
  unfolding kernel_2x2_split kernel_2x2_inf_first
  by (simp add: kernel_eval cfg_2x2_def id_2x2_def b_inf_def c11_def) (simp add: macro_eval)

lemma cfg_2x2_layout:
  "bli_dnr cfg_2x2 \<le> bli_dpacknr cfg_2x2"
  "inj_on (\<lambda>(i, j). 0 + int i * 2 + int j * 1) ({..<bli_dmr cfg_2x2} \<times> {..<bli_dnr cfg_2x2})"
  using row_major_inj [of 2 2 0 2] by (simp_all add: cfg_2x2_def)

subsection \<open>setv\<close>

lemma setv_untouched:
  fixes cast :: "'b::zero \<Rightarrow> 'x::zero" and m :: "'x mem"
  assumes "p \<notin> vec_addrs n x incx"
  shows "setv_unb_var1 cast n beta x incx m p = m p"
  using assms
  by (simp add: setv_unb_var1_def setv_zero_loop_def setv_copy_loop_def setv_fill)

lemma odd_not_addressed: "x + 2 * int k + 1 \<notin> vec_addrs n x 2"
proof
  assume "x + 2 * int k + 1 \<in> vec_addrs n x 2"
  then obtain i where "x + 2 * int k + 1 = x + int i * 2"
    by (auto simp: vec_addrs_def)
  then show False
    by presburger
qed

section \<open>Properties of the residual check\<close>



lemmas setup_defs = syrk_experiment_setup_def Let_def libblis_test_mobj_create_def
  bli_obj_set_struc_def bli_obj_set_uplo_def bli_obj_set_conjtrans_def bli_randm_def bli_mksymm_def
  bli_mktrim_def bli_copym_def bli_scalm_def in_obj_def


lemma setup_c_stored:
  assumes "i < m" "j < m" "is_stored uploc i j"
  shows "obj_buf (op_c (syrk_experiment_setup uploc transa m k R_a R_c g_a g_c g_s)) i j = R_c i j"
    and "obj_buf (op_c_save (syrk_experiment_setup uploc transa m k R_a R_c g_a g_c g_s)) i j = R_c i j"
  using assms by (simp_all add: setup_defs elem_symm_def)

lemma setup_dims:
  "bli_obj_length_after_trans (op_a (syrk_experiment_setup uploc transa m k R_a R_c g_a g_c g_s)) = m"
  "bli_obj_width_after_trans (op_a (syrk_experiment_setup uploc transa m k R_a R_c g_a g_c g_s)) = k"
  "bli_obj_length (op_c (syrk_experiment_setup uploc transa m k R_a R_c g_a g_c g_s)) = m"
  "bli_obj_length (op_c_save (syrk_experiment_setup uploc transa m k R_a R_c g_a g_c g_s)) = m"
  "obj_uplo (op_c (syrk_experiment_setup uploc transa m k R_a R_c g_a g_c g_s)) = uploc"
  by (simp_all add: setup_defs bli_obj_length_after_trans_def bli_obj_width_after_trans_def
      bli_obj_length_def)


section \<open>setv: the zero-fill path and the copy path\<close>

text \<open>
  C5. When \<open>\<beta>\<close> equals the additive identity of its type, every addressed element
  of the vector holds the zero of the element type afterwards, whatever the conversion
  of \<open>\<beta>\<close> to the element type would have produced: the zero is assigned
  directly, \<open>\<beta>\<close> is not copied. This holds for every \<open>n \<ge> 0\<close>.
\<close>

theorem setv_zero_fill:
  fixes cast :: "'b::zero \<Rightarrow> 'x::zero" and m :: "'x mem"
  assumes "beta = 0" and "i < n"
  shows "setv_unb_var1 cast n beta x incx m (x + int i * incx) = 0"
proof -
  have "x + int i * incx \<in> vec_addrs n x incx"
    using assms(2) by (auto simp: vec_addrs_def)
  then show ?thesis
    using assms by (simp add: setv_unb_var1_def bli_zero_dim1_def eq0_def setv_zero_loop_def
        setv_fill set0s_def)
qed

theorem setv_zero_fill_witness:
  "(0::int) = 0 \<and> (3::nat) < 4 \<and>
   setv_unb_var1 real_of_int 4 (0::int) 10 2 (\<lambda>p. 7) (10 + int 3 * 2) = 0"
  using setv_zero_fill [of "0::int" 3 4 real_of_int 10 2 "\<lambda>p. 7"] by simp

text \<open>
  C6. For \<open>n > 0\<close> and \<open>\<beta>\<close> different from the additive identity, every one of the
  \<open>n\<close> elements of the vector receives \<open>\<beta>\<close> converted to the element type, the
  pointer has advanced by the stride \<open>n\<close> times, these are \<open>n\<close> different
  addresses when the stride is not zero, and no other address is written.
\<close>

theorem setv_copy_fill:
  fixes cast :: "'b::zero \<Rightarrow> 'x::zero" and m :: "'x mem"
  assumes "beta \<noteq> 0" and "0 < n"
  shows "(\<forall>i<n. setv_unb_var1 cast n beta x incx m (x + int i * incx) = cast beta) \<and>
         (\<forall>p. p \<notin> vec_addrs n x incx \<longrightarrow> setv_unb_var1 cast n beta x incx m p = m p) \<and>
         fst (setv_copy_loop cast n beta x incx m) = x + int n * incx \<and>
         (incx \<noteq> 0 \<longrightarrow> card (vec_addrs n x incx) = n)"
proof -
  have res: "setv_unb_var1 cast n beta x incx m =
               (\<lambda>p. if p \<in> vec_addrs n x incx then cast beta else m p)"
    using assms by (simp add: setv_unb_var1_def bli_zero_dim1_def eq0_def setv_copy_loop_def
        setv_fill copys_def)
  have mem: "x + int i * incx \<in> vec_addrs n x incx" if "i < n" for i
    using that by (auto simp: vec_addrs_def)
  have "inj_on (\<lambda>i. x + int i * incx) {0..<n}" if "incx \<noteq> 0"
    using that by (auto simp: inj_on_def)
  then have "card (vec_addrs n x incx) = n" if "incx \<noteq> 0"
    using that by (simp add: vec_addrs_def card_image)
  then show ?thesis
    by (simp add: res mem setv_copy_loop_def setv_fill)
qed

theorem setv_copy_fill_witness:
  "(3::int) \<noteq> 0 \<and> (0::nat) < 2 \<and>
   setv_unb_var1 real_of_int 2 (3::int) 0 5 (\<lambda>p. 7) 0 = 3 \<and>
   setv_unb_var1 real_of_int 2 (3::int) 0 5 (\<lambda>p. 7) 5 = 3 \<and>
   setv_unb_var1 real_of_int 2 (3::int) 0 5 (\<lambda>p. 7) 1 = 7 \<and>
   fst (setv_copy_loop real_of_int 2 (3::int) 0 5 (\<lambda>p. 7::real)) = 10 \<and>
   card (vec_addrs 2 0 5) = 2"
proof -
  have a: "(3::int) \<noteq> 0" and b: "(0::nat) < 2" by simp_all
  note th = setv_copy_fill [OF a b, of real_of_int 0 5 "\<lambda>p. 7::real"]
  have "int i * 5 \<noteq> 1" for i
    by presburger
  then have notin: "(1::int) \<notin> vec_addrs 2 0 5"
    by (auto simp: vec_addrs_def)
  have e0: "setv_unb_var1 real_of_int 2 (3::int) 0 5 (\<lambda>p. 7) 0 = 3"
    using th [THEN conjunct1, rule_format, of 0] by simp
  have e1: "setv_unb_var1 real_of_int 2 (3::int) 0 5 (\<lambda>p. 7) 5 = 3"
    using th [THEN conjunct1, rule_format, of 1] by simp
  have e2: "setv_unb_var1 real_of_int 2 (3::int) 0 5 (\<lambda>p. 7) 1 = 7"
    using th notin by simp
  from th e0 e1 e2 show ?thesis by simp
qed

section \<open>The entry points that delegate\<close>

text \<open>
  C10. For the single-precision real, single-precision complex and double-precision
  complex datatypes, the entry point of the micro-kernel computes the same function as
  the reference implementation it is given: it calls it with its own arguments,
  unconditionally.
\<close>

theorem trsm_u_opt_delegates:
  "bli_strsm_u_opt_mxn sref = sref \<and>
   bli_ctrsm_u_opt_mxn cref = cref \<and>
   bli_ztrsm_u_opt_mxn zref = zref"
  by (simp add: fun_eq_iff bli_strsm_u_opt_mxn_def bli_ctrsm_u_opt_mxn_def
      bli_ztrsm_u_opt_mxn_def)

section \<open>The trsm\_u micro-kernel: what it computes\<close>

text \<open>
  C1. In double precision the kernel rounds every operation, so its output is the
  back-substitution in rounded arithmetic, not \<open>A\<^sup>-\<^sup>1 B\<close> and not
  \<open>(B[i,j] - \<rho>)\<close> times the stored reciprocal as real numbers. What holds for
  every packed block \<open>A\<close> and every packed block \<open>B\<close>, for every row \<open>i\<close>
  and column \<open>j\<close>: the output satisfies
  \<open>C[i,j] = scals (A[i,i]) (subs \<rho> (B[i,j]))\<close>, where \<open>\<rho>\<close> is accumulated
  by \<open>axpys\<close> from zero over the rows \<open>l = i + 1, \<dots>, m - 1\<close> in this order,
  from \<open>A[i,l]\<close> and \<open>C[l,j]\<close>, every operation being the double-precision one.
  The same loops in exact arithmetic, on a packed block that stores the upper triangular
  \<open>U\<close> with the reciprocals of its diagonal, give the working value
  \<open>(B[i,j] - \<rho>)\<close> times the stored reciprocal, solve \<open>U \<cdot> C = B\<close> and give
  its only solution. The rows of the packed \<open>B\<close> do not overlap
  (\<open>bli_dnr \<le> bli_dpacknr\<close>) and the strides of \<open>C\<close> address distinct
  elements. The witness is the scenario \<open>A = [[2]]\<close> (stored \<open>0.5\<close>),
  \<open>B = [[4]]\<close>, whose output is \<open>[[2]]\<close> in double precision and in exact
  arithmetic.
\<close>

theorem trsm_u_solves:
  assumes le: "bli_dnr cfg \<le> bli_dpacknr cfg"
    and inj: "inj_on (\<lambda>(i, j). c + int i * rs_c + int j * cs_c) ({..<bli_dmr cfg} \<times> {..<bli_dnr cfg})"
    and st: "stores_upper (bli_dmr cfg) U (a11 cfg a ar)"
    and ij: "i < bli_dmr cfg" "j < bli_dnr cfg"
  shows "(let C = c11 c rs_c cs_c (snd (bli_dtrsm_u_opt_mxn cfg a b c rs_c cs_c amem (b0, c0)));
              B = b11 cfg b b0; A = a11 cfg a amem; m = bli_dmr cfg
          in C i j = bli_dscals (A i i)
                       (bli_dsubs (fold (\<lambda>l rho. bli_daxpys (A i l) (C l j) rho) [Suc i..<m] bli_dset0s)
                          (B i j))) \<and>
         (let C = c11 c rs_c cs_c (snd (trsm_u_opt_mxn exact_arith cfg a b c rs_c cs_c ar (br, cr)));
              B = b11 cfg b br; A = a11 cfg a ar; m = bli_dmr cfg
          in C i j = (B i j - (\<Sum>l = Suc i..<m. A i l * C l j)) * A i i \<and>
             (\<Sum>l<m. U i l * C l j) = B i j \<and>
             (\<forall>Y. (\<forall>i'<m. (\<Sum>l<m. U i' l * Y l) = B i' j) \<longrightarrow> (\<forall>i'<m. Y i' = C i' j)))"
proof -
  let ?m = "bli_dmr cfg"
  let ?C = "c11 c rs_c cs_c (snd (bli_dtrsm_u_opt_mxn cfg a b c rs_c cs_c amem (b0, c0)))"
  let ?B = "b11 cfg b b0" and ?A = "a11 cfg a amem"
  let ?Ce = "c11 c rs_c cs_c (snd (trsm_u_opt_mxn exact_arith cfg a b c rs_c cs_c ar (br, cr)))"
  let ?Be = "b11 cfg b br" and ?Ae = "a11 cfg a ar"
  define X where "X l = back_subst exact_arith ?Ae ?Be ?m l j" for l
  have C: "?C i' j = back_subst bli_d ?A ?B ?m i' j" if "i' < ?m" for i'
    using trsm_u_result(2) [OF le that ij(2) inj, where sc = bli_d]
    by (simp add: bli_dtrsm_u_opt_mxn_def bli_dcopys_def)
  have 1: "?C i j = bli_dscals (?A i i)
                       (bli_dsubs (fold (\<lambda>l rho. bli_daxpys (?A i l) (?C l j) rho) [Suc i..<?m] bli_dset0s)
                          (?B i j))"
    unfolding C [OF ij(1)] by (rule kernel_fold_rho [OF le ij]) (rule C)
  have Ce: "?Ce i' j = X i'" if "i' < ?m" for i'
    using trsm_u_result(2) [OF le that ij(2) inj, where sc = exact_arith] by (simp add: X_def)
  have rec: "X i' = (?Be i' j - (\<Sum>l = Suc i'..<?m. ?Ae i' l * X l)) * ?Ae i' i'" for i'
    unfolding X_def by (subst back_subst_rho) (simp add: rho_rows_exact)
  have sumC: "(\<Sum>l = Suc i..<?m. ?Ae i l * ?Ce l j) = (\<Sum>l = Suc i..<?m. ?Ae i l * X l)"
    by (rule sum.cong) (simp_all add: Ce)
  have 2: "?Ce i j = (?Be i j - (\<Sum>l = Suc i..<?m. ?Ae i l * ?Ce l j)) * ?Ae i i"
    unfolding sumC Ce [OF ij(1)] by (rule rec)
  have sumU: "(\<Sum>l<?m. U i l * ?Ce l j) = (\<Sum>l<?m. U i l * X l)"
    by (rule sum.cong) (simp_all add: Ce)
  have 3: "(\<Sum>l<?m. U i l * ?Ce l j) = ?Be i j"
    unfolding sumU
    by (rule recurrence_solves [where B = "\<lambda>i'. ?Be i' j" and A = ?Ae, OF st ij(1)]) (rule rec)
  have 4: "Y i' = ?Ce i' j" if sol: "\<forall>i'<?m. (\<Sum>l<?m. U i' l * Y l) = ?Be i' j" and i': "i' < ?m"
    for Y i'
    unfolding Ce [OF i']
  proof (rule recurrence_unique [where B = "\<lambda>i'. ?Be i' j" and A = ?Ae and U = U and m = ?m])
    show "stores_upper ?m U ?Ae"
      by (rule st)
    show "X k = (?Be k j - (\<Sum>l = Suc k..<?m. ?Ae k l * X l)) * ?Ae k k" for k
      by (rule rec)
    show "(\<Sum>l<?m. U k l * Y l) = ?Be k j" if "k < ?m" for k
      using sol that by simp
    show "i' < ?m"
      by (rule i')
  qed
  show ?thesis
    unfolding Let_def
  proof (intro conjI allI impI)
    show "?C i j = bli_dscals (?A i i)
                       (bli_dsubs (fold (\<lambda>l rho. bli_daxpys (?A i l) (?C l j) rho) [Suc i..<?m] bli_dset0s)
                          (?B i j))"
      by (rule 1)
    show "?Ce i j = (?Be i j - (\<Sum>l = Suc i..<?m. ?Ae i l * ?Ce l j)) * ?Ae i i"
      by (rule 2)
    show "(\<Sum>l<?m. U i l * ?Ce l j) = ?Be i j"
      by (rule 3)
    show "Y i' = ?Ce i' j" if "\<forall>i'<?m. (\<Sum>l<?m. U i' l * Y l) = ?Be i' j" and "i' < ?m" for Y i'
      using that by (rule 4)
  qed
qed

theorem trsm_u_solves_witness:
  "bli_dnr cfg_1x1 \<le> bli_dpacknr cfg_1x1 \<and>
   inj_on (\<lambda>(i, j). 0 + int i * 1 + int j * 1) ({..<bli_dmr cfg_1x1} \<times> {..<bli_dnr cfg_1x1}) \<and>
   stores_upper (bli_dmr cfg_1x1) (\<lambda>i l. 2) (a11 cfg_1x1 0 (\<lambda>p. 1 / 2)) \<and>
   c11 0 1 1 (snd (bli_dtrsm_u_opt_mxn cfg_1x1 0 0 0 1 1 (\<lambda>p. Fin (1 / 2)) (\<lambda>p. Fin 4, \<lambda>p. Fin 0))) 0 0
     = Fin 2 \<and>
   c11 0 1 1 (snd (trsm_u_opt_mxn exact_arith cfg_1x1 0 0 0 1 1 (\<lambda>p. 1 / 2) (\<lambda>p. 4, \<lambda>p. 0))) 0 0 = 2"
proof -
  have le: "bli_dnr cfg_1x1 \<le> bli_dpacknr cfg_1x1"
    by (simp add: cfg_1x1_def)
  have inj: "inj_on (\<lambda>(i, j). 0 + int i * 1 + int j * 1) ({..<bli_dmr cfg_1x1} \<times> {..<bli_dnr cfg_1x1})"
    by (simp add: inj_on_def cfg_1x1_def)
  have st: "stores_upper (bli_dmr cfg_1x1) (\<lambda>i l. 2) (a11 cfg_1x1 0 (\<lambda>p. 1 / 2))"
    by (simp add: stores_upper_def a11_def cfg_1x1_def)
  have ij: "0 < bli_dmr cfg_1x1" "0 < bli_dnr cfg_1x1"
    by (simp_all add: cfg_1x1_def)
  note th = trsm_u_solves [OF le inj st ij, of 0 "\<lambda>p. Fin (1 / 2)" "\<lambda>p. Fin 4" "\<lambda>p. Fin 0"
      "\<lambda>p. 4" "\<lambda>p. 0", unfolded Let_def]
  have m: "bli_dmr cfg_1x1 = Suc 0"
    by (simp add: cfg_1x1_def)
  have 1: "c11 0 1 1 (snd (bli_dtrsm_u_opt_mxn cfg_1x1 0 0 0 1 1 (\<lambda>p. Fin (1 / 2))
             (\<lambda>p. Fin 4, \<lambda>p. Fin 0))) 0 0 = Fin 2"
    using th [THEN conjunct1] by (simp add: m a11_def b11_def macro_eval rnd_vals)
  have "2 * c11 0 1 1 (snd (trsm_u_opt_mxn exact_arith cfg_1x1 0 0 0 1 1 (\<lambda>p. 1 / 2)
             (\<lambda>p. 4, \<lambda>p. 0))) 0 0 = 4"
    using th [THEN conjunct2, THEN conjunct2, THEN conjunct1] by (simp add: m b11_def)
  then have 2: "c11 0 1 1 (snd (trsm_u_opt_mxn exact_arith cfg_1x1 0 0 0 1 1 (\<lambda>p. 1 / 2)
             (\<lambda>p. 4, \<lambda>p. 0))) 0 0 = 2"
    by simp
  show ?thesis
    by (intro conjI le inj st 1 2)
qed

text \<open>
  The claim without rounding fails: with the stored reciprocal
  \<open>3602879701896397 / 2 ^ 55\<close> (the double nearest to \<open>0.1\<close>) and
  \<open>B = [[3]]\<close>, both of them doubles, \<open>\<rho>\<close> is zero and the kernel returns
  \<open>5404319552844596 / 2 ^ 54\<close>, the double next above the product
  \<open>(3 - 0) * (3602879701896397 / 2 ^ 55)\<close>.
\<close>

theorem trsm_u_solves_counterexample:
  "finite_double (Fin (3602879701896397 / 2 ^ 55)) \<and> finite_double (Fin 3) \<and>
   c11 0 1 1 (snd (bli_dtrsm_u_opt_mxn cfg_1x1 0 0 0 1 1 (\<lambda>p. Fin (3602879701896397 / 2 ^ 55))
     (\<lambda>p. Fin 3, \<lambda>p. Fin 0))) 0 0 = Fin (5404319552844596 / 2 ^ 54) \<and>
   valof (c11 0 1 1 (snd (bli_dtrsm_u_opt_mxn cfg_1x1 0 0 0 1 1 (\<lambda>p. Fin (3602879701896397 / 2 ^ 55))
     (\<lambda>p. Fin 3, \<lambda>p. Fin 0))) 0 0) \<noteq> (3 - 0) * (3602879701896397 / 2 ^ 55)"
proof -
  have "finite_double (Fin 3)"
    using finite_of_int [of 3] by simp
  then show ?thesis
    using finite_tenth kernel_1x1_tenth by (simp add: c11_def)
qed

section \<open>The trsm\_u micro-kernel: order of the rows\<close>

text \<open>
  C3. The micro-kernel is the fold of its outer step over the iterations
  \<open>0, \<dots>, m - 1\<close>, which visit the rows \<open>m - 1\<close> down to \<open>0\<close>. At
  iteration \<open>iter\<close>, working on row \<open>i\<close>, the rows visited before are exactly
  the rows \<open>l\<close> with \<open>i < l < m\<close>, and \<open>n_behind\<close> is their number. In the
  state in which the kernel starts column \<open>j\<close> of that iteration (after
  \<open>iter\<close> outer iterations and \<open>j\<close> column steps), every element of
  every row \<open>l > i\<close> of the packed block holds its final, solved value and the
  element \<open>[i,j]\<close> still holds its input. The accumulation \<open>\<rho>\<close> that
  the kernel runs in that state is the accumulation of \<open>A[i,l] * x[l,j]\<close> over exactly the rows \<open>l\<close> with
  \<open>i < l < m\<close>, \<open>x\<close> being the solved values, and the kernel leaves
  \<open>scals (A[i,i]) (subs \<rho> (B[i,j]))\<close> in the element \<open>[i,j]\<close>. The rows of
  the packed block do not overlap (\<open>bli_dnr \<le> bli_dpacknr\<close>).
\<close>

theorem trsm_u_reverse_rows:
  assumes le: "bli_dnr cfg \<le> bli_dpacknr cfg" and it: "iter < bli_dmr cfg" and j: "j < bli_dnr cfg"
  shows "let m = bli_dmr cfg;
             i = trsm_u_row m iter;
             step = trsm_u_iter bli_d cfg a b c rs_c cs_c amem;
             s_iter = for_loop 0 iter step (b0, c0);
             col = trsm_u_col bli_d amem c rs_c cs_c (int (bli_dpackmr cfg)) (int (bli_dpacknr cfg)) 1
                     i (trsm_u_n_behind iter)
                     (a + int i * 1 + int i * int (bli_dpackmr cfg))
                     (a + int i * 1 + int (i + 1) * int (bli_dpackmr cfg))
                     (b + int i * int (bli_dpacknr cfg) + 0 * 1)
                     (b + int (i + 1) * int (bli_dpacknr cfg) + 0 * 1);
             s_col = for_loop 0 j col s_iter;
             X = b11 cfg b (fst (bli_dtrsm_u_opt_mxn cfg a b c rs_c cs_c amem (b0, c0)));
             A = a11 cfg a amem
         in bli_dtrsm_u_opt_mxn cfg a b c rs_c cs_c amem (b0, c0) = fold step [0..<m] (b0, c0) \<and>
            map (trsm_u_row m) [0..<m] = rev [0..<m] \<and>
            bli_dtrsm_u_opt_mxn cfg a b c rs_c cs_c amem (b0, c0) = for_loop iter m step s_iter \<and>
            step iter s_iter = for_loop j (bli_dnr cfg) col s_col \<and>
            trsm_u_row m ` {0..<iter} = {Suc i..<m} \<and>
            trsm_u_n_behind iter = card {Suc i..<m} \<and>
            (\<forall>l j'. i < l \<and> l < m \<and> j' < bli_dnr cfg \<longrightarrow>
               b11 cfg b (fst s_col) l j' = X l j') \<and>
            b11 cfg b (fst s_col) i j = b11 cfg b b0 i j \<and>
            rho11_loop bli_d amem (fst s_col)
              (a + int i * 1 + int (i + 1) * int (bli_dpackmr cfg))
              (b + int (i + 1) * int (bli_dpacknr cfg) + 0 * 1 + 0 * int (bli_dpacknr cfg) + int j * 1)
              (int (bli_dpackmr cfg)) (int (bli_dpacknr cfg)) (trsm_u_n_behind iter) =
              fold (\<lambda>l rho. bli_daxpys (A i l) (X l j) rho) [Suc i..<m] bli_dset0s \<and>
            X i j = bli_dscals (A i i)
                      (bli_dsubs (fold (\<lambda>l rho. bli_daxpys (A i l) (X l j) rho) [Suc i..<m] bli_dset0s)
                         (b11 cfg b b0 i j))"
proof -
  let ?m = "bli_dmr cfg"
  let ?i = "trsm_u_row ?m iter"
  let ?step = "trsm_u_iter bli_d cfg a b c rs_c cs_c amem"
  let ?s = "for_loop 0 iter ?step (b0, c0)"
  let ?col = "trsm_u_col bli_d amem c rs_c cs_c (int (bli_dpackmr cfg)) (int (bli_dpacknr cfg)) 1
                     ?i (trsm_u_n_behind iter)
                     (a + int ?i * 1 + int ?i * int (bli_dpackmr cfg))
                     (a + int ?i * 1 + int (?i + 1) * int (bli_dpackmr cfg))
                     (b + int ?i * int (bli_dpacknr cfg) + 0 * 1)
                     (b + int (?i + 1) * int (bli_dpacknr cfg) + 0 * 1)"
  let ?sc = "for_loop 0 j ?col ?s"
  let ?K = "bli_dtrsm_u_opt_mxn cfg a b c rs_c cs_c amem (b0, c0)"
  let ?X = "b11 cfg b (fst ?K)"
  let ?A = "a11 cfg a amem"
  have im: "?i < ?m" and mi: "?m - Suc ?i = iter"
    using it by (simp_all add: trsm_u_row_def)
  have K: "?K = for_loop 0 ?m ?step (b0, c0)"
    by (simp add: bli_dtrsm_u_opt_mxn_def trsm_u_opt_mxn_def)
  have X: "?X l j = back_subst bli_d ?A (b11 cfg b b0) ?m l j" if "l < ?m" for l
    unfolding bli_dtrsm_u_opt_mxn_def by (rule trsm_u_result(1) [OF le that j])
  have frame: "fst ?sc p = fst ?s p"
    if "b + int (?i + 1) * int (bli_dpacknr cfg) \<le> p \<or>
        p = b + int ?i * int (bli_dpacknr cfg) + int j * 1" for p
    by (rule trsm_u_col_state [OF le j that])
  have behind: "fst ?sc (b + int l * int (bli_dpacknr cfg) + q) = fst ?s (b + int l * int (bli_dpacknr cfg) + q)"
    if "?i < l" "0 \<le> q" for l q
  proof (rule frame, rule disjI1)
    have "int (?i + 1) \<le> int l"
      using that(1) by simp
    then have "int (?i + 1) * int (bli_dpacknr cfg) \<le> int l * int (bli_dpacknr cfg)"
      by (rule mult_right_mono) simp
    then show "b + int (?i + 1) * int (bli_dpacknr cfg) \<le> b + int l * int (bli_dpacknr cfg) + q"
      using that(2) by linarith
  qed
  have 1: "?K = fold ?step [0..<?m] (b0, c0)"
    unfolding K by (rule for_loop_fold)
  have 2: "map (trsm_u_row ?m) [0..<?m] = rev [0..<?m]"
    by (rule trsm_u_rows_rev)
  have 3: "?K = for_loop iter ?m ?step ?s"
    unfolding K by (rule for_loop_split) (use it in simp_all)
  have "?step iter ?s = for_loop 0 (bli_dnr cfg) ?col ?s"
    by (simp only: trsm_u_iter_def Let_def)
  also have "\<dots> = for_loop j (bli_dnr cfg) ?col ?sc"
    by (rule for_loop_split) (use j in simp_all)
  finally have col3: "?step iter ?s = for_loop j (bli_dnr cfg) ?col ?sc" .
  have 4: "trsm_u_row ?m ` {0..<iter} = {Suc ?i..<?m}"
    by (rule trsm_u_rows_behind [OF it])
  have 5: "trsm_u_n_behind iter = card {Suc ?i..<?m}"
    by (simp add: trsm_u_n_behind_def mi)
  have 6: "b11 cfg b (fst ?sc) l j' = ?X l j'" if "?i < l \<and> l < ?m \<and> j' < bli_dnr cfg" for l j'
  proof -
    have "b11 cfg b (fst ?sc) l j' = b11 cfg b (fst ?s) l j'"
      unfolding b11_def by (rule behind) (use that in simp_all)
    also have "\<dots> = ?X l j'"
      unfolding bli_dtrsm_u_opt_mxn_def
      by (rule trsm_u_state_behind(1) [OF le it]) (use that in simp_all)
    finally show ?thesis .
  qed
  have 7: "b11 cfg b (fst ?sc) ?i j = b11 cfg b b0 ?i j"
  proof -
    have "b11 cfg b (fst ?sc) ?i j = b11 cfg b (fst ?s) ?i j"
      unfolding b11_def by (rule frame) (rule disjI2, rule refl)
    also have "\<dots> = b11 cfg b b0 ?i j"
      by (rule trsm_u_state_behind(2) [OF le it j])
    finally show ?thesis .
  qed
  have "rho_rows bli_d ?A (b11 cfg b (fst ?sc)) ?m ?i j = rho_rows bli_d ?A ?X ?m ?i j"
    by (rule rho_rows_cong) (rule 6, simp add: j)
  then have 8: "rho11_loop bli_d amem (fst ?sc)
              (a + int ?i * 1 + int (?i + 1) * int (bli_dpackmr cfg))
              (b + int (?i + 1) * int (bli_dpacknr cfg) + 0 * 1 + 0 * int (bli_dpacknr cfg) + int j * 1)
              (int (bli_dpackmr cfg)) (int (bli_dpacknr cfg)) (trsm_u_n_behind iter) =
              fold (\<lambda>l rho. bli_daxpys (?A ?i l) (?X l j) rho) [Suc ?i..<?m] bli_dset0s"
    unfolding rho11_loop_rows [OF it] by (simp add: rho_rows_def)
  have 9: "?X ?i j = bli_dscals (?A ?i ?i)
                      (bli_dsubs (fold (\<lambda>l rho. bli_daxpys (?A ?i l) (?X l j) rho) [Suc ?i..<?m] bli_dset0s)
                         (b11 cfg b b0 ?i j))"
    unfolding X [OF im] by (rule kernel_fold_rho [OF le im j]) (rule X)
  show ?thesis
    unfolding Let_def
  proof (intro conjI allI impI)
    show "?K = fold ?step [0..<?m] (b0, c0)"
      by (rule 1)
    show "map (trsm_u_row ?m) [0..<?m] = rev [0..<?m]"
      by (rule 2)
    show "?K = for_loop iter ?m ?step ?s"
      by (rule 3)
    show "?step iter ?s = for_loop j (bli_dnr cfg) ?col ?sc"
      by (rule col3)
    show "trsm_u_row ?m ` {0..<iter} = {Suc ?i..<?m}"
      by (rule 4)
    show "trsm_u_n_behind iter = card {Suc ?i..<?m}"
      by (rule 5)
    show "b11 cfg b (fst ?sc) l j' = ?X l j'" if "?i < l \<and> l < ?m \<and> j' < bli_dnr cfg" for l j'
      using that by (rule 6)
    show "b11 cfg b (fst ?sc) ?i j = b11 cfg b b0 ?i j"
      by (rule 7)
    show "rho11_loop bli_d amem (fst ?sc)
              (a + int ?i * 1 + int (?i + 1) * int (bli_dpackmr cfg))
              (b + int (?i + 1) * int (bli_dpacknr cfg) + 0 * 1 + 0 * int (bli_dpacknr cfg) + int j * 1)
              (int (bli_dpackmr cfg)) (int (bli_dpacknr cfg)) (trsm_u_n_behind iter) =
              fold (\<lambda>l rho. bli_daxpys (?A ?i l) (?X l j) rho) [Suc ?i..<?m] bli_dset0s"
      by (rule 8)
    show "?X ?i j = bli_dscals (?A ?i ?i)
                      (bli_dsubs (fold (\<lambda>l rho. bli_daxpys (?A ?i l) (?X l j) rho) [Suc ?i..<?m] bli_dset0s)
                         (b11 cfg b b0 ?i j))"
      by (rule 9)
  qed
qed

theorem trsm_u_reverse_rows_witness:
  "bli_dnr cfg_2x2 \<le> bli_dpacknr cfg_2x2 \<and> 1 < bli_dmr cfg_2x2 \<and> 1 < bli_dnr cfg_2x2 \<and>
   map (trsm_u_row (bli_dmr cfg_2x2)) [0..<bli_dmr cfg_2x2] = [1, 0] \<and>
   trsm_u_row (bli_dmr cfg_2x2) 1 = 0 \<and>
   trsm_u_row (bli_dmr cfg_2x2) ` {0..<1} = {1} \<and>
   trsm_u_n_behind 1 = 1 \<and>
   b11 cfg_2x2 0
     (fst (for_loop 0 1 (trsm_u_col bli_d a_2x2 0 2 1 2 2 1 0 (trsm_u_n_behind 1) 0 2 0 2)
        (for_loop 0 1 (trsm_u_iter bli_d cfg_2x2 0 0 0 2 1 a_2x2) (b_2x2, \<lambda>p. Fin 0)))) 1 1 =
     Fin (3 / 4) \<and>
   b11 cfg_2x2 0 (fst (bli_dtrsm_u_opt_mxn cfg_2x2 0 0 0 2 1 a_2x2 (b_2x2, \<lambda>p. Fin 0))) 1 1 =
     Fin (3 / 4) \<and>
   b11 cfg_2x2 0
     (fst (for_loop 0 1 (trsm_u_col bli_d a_2x2 0 2 1 2 2 1 0 (trsm_u_n_behind 1) 0 2 0 2)
        (for_loop 0 1 (trsm_u_iter bli_d cfg_2x2 0 0 0 2 1 a_2x2) (b_2x2, \<lambda>p. Fin 0)))) 0 1 =
     Fin 1 \<and>
   rho11_loop bli_d a_2x2
     (fst (for_loop 0 1 (trsm_u_col bli_d a_2x2 0 2 1 2 2 1 0 (trsm_u_n_behind 1) 0 2 0 2)
        (for_loop 0 1 (trsm_u_iter bli_d cfg_2x2 0 0 0 2 1 a_2x2) (b_2x2, \<lambda>p. Fin 0))))
     2 3 2 2 (trsm_u_n_behind 1) = Fin (9 / 4) \<and>
   b11 cfg_2x2 0 (fst (bli_dtrsm_u_opt_mxn cfg_2x2 0 0 0 2 1 a_2x2 (b_2x2, \<lambda>p. Fin 0))) 0 1 =
     Fin (- (5 / 8))"
proof -
  have it: "1 < bli_dmr cfg_2x2" and j: "1 < bli_dnr cfg_2x2"
    by (simp_all add: cfg_2x2_def)
  have row: "trsm_u_row (bli_dmr cfg_2x2) 1 = 0"
    by (simp add: cfg_2x2_def trsm_u_row_def)
  have m: "bli_dmr cfg_2x2 = Suc (Suc 0)" "bli_dnr cfg_2x2 = 2" "bli_dpackmr cfg_2x2 = 2"
    "bli_dpacknr cfg_2x2 = 2"
    by (simp_all add: cfg_2x2_def)
  note th = trsm_u_reverse_rows [OF cfg_2x2_layout(1) it j, of 0 0 0 2 1 a_2x2 b_2x2 "\<lambda>p. Fin 0",
      unfolded Let_def row]
  note t2 = th [THEN conjunct2]
  note t5 = t2 [THEN conjunct2, THEN conjunct2, THEN conjunct2]
  note t6 = t5 [THEN conjunct2]
  note t7 = t6 [THEN conjunct2]
  note t8 = t7 [THEN conjunct2]
  note t9 = t8 [THEN conjunct2]
  note t10 = t9 [THEN conjunct2]
  have x11: "b11 cfg_2x2 0 (fst (bli_dtrsm_u_opt_mxn cfg_2x2 0 0 0 2 1 a_2x2 (b_2x2, \<lambda>p. Fin 0)))
      (Suc 0) (Suc 0) = Fin (3 / 4)"
    by (simp add: kernel_2x2 b11_def m)
  have b01: "b11 cfg_2x2 0 b_2x2 0 (Suc 0) = Fin 1"
    by (simp add: b11_def b_2x2_def m)
  have a: "a11 cfg_2x2 0 a_2x2 0 (Suc 0) = Fin 3" "a11 cfg_2x2 0 a_2x2 0 0 = Fin (1 / 2)"
    by (simp_all add: a11_def a_2x2_def m)
  have 1: "map (trsm_u_row (bli_dmr cfg_2x2)) [0..<bli_dmr cfg_2x2] = [1, 0]"
    using t2 [THEN conjunct1] by (simp add: m)
  have 2: "trsm_u_row (bli_dmr cfg_2x2) ` {0..<1} = {1}"
    using t5 [THEN conjunct1] by (simp add: m)
  have 3: "trsm_u_n_behind 1 = 1"
    using t6 [THEN conjunct1] by (simp add: m)
  have 4: "b11 cfg_2x2 0
     (fst (for_loop 0 1 (trsm_u_col bli_d a_2x2 0 2 1 2 2 1 0 (trsm_u_n_behind 1) 0 2 0 2)
        (for_loop 0 1 (trsm_u_iter bli_d cfg_2x2 0 0 0 2 1 a_2x2) (b_2x2, \<lambda>p. Fin 0)))) 1 1 =
     Fin (3 / 4)"
    using t7 [THEN conjunct1, rule_format, of 1 1] it j by (simp add: m x11)
  have 5: "b11 cfg_2x2 0 (fst (bli_dtrsm_u_opt_mxn cfg_2x2 0 0 0 2 1 a_2x2 (b_2x2, \<lambda>p. Fin 0))) 1 1 =
     Fin (3 / 4)"
    using x11 by simp
  have 6: "b11 cfg_2x2 0
     (fst (for_loop 0 1 (trsm_u_col bli_d a_2x2 0 2 1 2 2 1 0 (trsm_u_n_behind 1) 0 2 0 2)
        (for_loop 0 1 (trsm_u_iter bli_d cfg_2x2 0 0 0 2 1 a_2x2) (b_2x2, \<lambda>p. Fin 0)))) 0 1 =
     Fin 1"
    using t8 [THEN conjunct1] by (simp add: m b01)
  have 7: "rho11_loop bli_d a_2x2
     (fst (for_loop 0 1 (trsm_u_col bli_d a_2x2 0 2 1 2 2 1 0 (trsm_u_n_behind 1) 0 2 0 2)
        (for_loop 0 1 (trsm_u_iter bli_d cfg_2x2 0 0 0 2 1 a_2x2) (b_2x2, \<lambda>p. Fin 0))))
     2 3 2 2 (trsm_u_n_behind 1) = Fin (9 / 4)"
    using t9 [THEN conjunct1] by (simp add: m x11 a) (simp add: macro_eval rnd_vals)
  have 8: "b11 cfg_2x2 0 (fst (bli_dtrsm_u_opt_mxn cfg_2x2 0 0 0 2 1 a_2x2 (b_2x2, \<lambda>p. Fin 0))) 0 1 =
     Fin (- (5 / 8))"
    using t10 by (simp add: m x11 a b01) (simp add: macro_eval rnd_vals)
  show ?thesis
    by (intro conjI cfg_2x2_layout(1) it j 1 row 2 3 4 5 6 7 8)
qed

section \<open>The trsm\_u micro-kernel: the two destinations\<close>

text \<open>
  C2. After the micro-kernel returns, the element \<open>[i,j]\<close> of the packed block
  \<open>b\<close> equals the element of \<open>c\<close> at the strided position of \<open>[i,j]\<close>,
  for every \<open>i < m\<close> and \<open>j < n\<close>, when the rows of the packed block do not
  overlap and the strides of \<open>c\<close> address distinct elements. Moreover every single
  column step stores one and the same value through \<open>chi11\<close> and through
  \<open>gamma11\<close>, whatever the strides are.
\<close>

theorem trsm_u_dual_write:
  assumes le: "bli_dnr cfg \<le> bli_dpacknr cfg"
    and inj: "inj_on (\<lambda>(i, j). c + int i * rs_c + int j * cs_c) ({..<bli_dmr cfg} \<times> {..<bli_dnr cfg})"
    and ij: "i < bli_dmr cfg" "j < bli_dnr cfg"
  shows "b11 cfg b (fst (bli_dtrsm_u_opt_mxn cfg a b c rs_c cs_c amem (b0, c0))) i j =
         c11 c rs_c cs_c (snd (bli_dtrsm_u_opt_mxn cfg a b c rs_c cs_c amem (b0, c0))) i j \<and>
         fst (trsm_u_col bli_d amem c rs_c cs_c cs_a rs_b cs_b i' nb alpha11 a12t x1 X2 j' (bm, cm))
           (x1 + 0 * rs_b + int j' * cs_b) =
         snd (trsm_u_col bli_d amem c rs_c cs_c cs_a rs_b cs_b i' nb alpha11 a12t x1 X2 j' (bm, cm))
           (c + int i' * rs_c + int j' * cs_c)"
proof
  show "b11 cfg b (fst (bli_dtrsm_u_opt_mxn cfg a b c rs_c cs_c amem (b0, c0))) i j =
        c11 c rs_c cs_c (snd (bli_dtrsm_u_opt_mxn cfg a b c rs_c cs_c amem (b0, c0))) i j"
    using trsm_u_result [OF le ij, where sc = bli_d and a = a and b = b and c = c and rs_c = rs_c
        and cs_c = cs_c and amem = amem and ?b0.0 = b0 and ?c0.0 = c0] inj
    by (simp add: bli_dtrsm_u_opt_mxn_def bli_dcopys_def)
  show "fst (trsm_u_col bli_d amem c rs_c cs_c cs_a rs_b cs_b i' nb alpha11 a12t x1 X2 j' (bm, cm))
           (x1 + 0 * rs_b + int j' * cs_b) =
        snd (trsm_u_col bli_d amem c rs_c cs_c cs_a rs_b cs_b i' nb alpha11 a12t x1 X2 j' (bm, cm))
           (c + int i' * rs_c + int j' * cs_c)"
    by (simp add: trsm_u_col_def Let_def bli_dcopys_def)
qed

theorem trsm_u_dual_write_witness:
  "bli_dnr cfg_2x2 \<le> bli_dpacknr cfg_2x2 \<and>
   inj_on (\<lambda>(i, j). 0 + int i * 2 + int j * 1) ({..<bli_dmr cfg_2x2} \<times> {..<bli_dnr cfg_2x2}) \<and>
   b11 cfg_2x2 0 (fst (bli_dtrsm_u_opt_mxn cfg_2x2 0 0 0 2 1 a_2x2 (b_2x2, \<lambda>p. Fin 0))) 0 1 =
   c11 0 2 1 (snd (bli_dtrsm_u_opt_mxn cfg_2x2 0 0 0 2 1 a_2x2 (b_2x2, \<lambda>p. Fin 0))) 0 1 \<and>
   c11 0 2 1 (snd (bli_dtrsm_u_opt_mxn cfg_2x2 0 0 0 2 1 a_2x2 (b_2x2, \<lambda>p. Fin 0))) 0 1 =
     Fin (- (5 / 8))"
proof -
  have ij: "0 < bli_dmr cfg_2x2" "1 < bli_dnr cfg_2x2"
    by (simp_all add: cfg_2x2_def)
  note th = trsm_u_dual_write [OF cfg_2x2_layout ij, THEN conjunct1]
  have val: "c11 0 2 1 (snd (bli_dtrsm_u_opt_mxn cfg_2x2 0 0 0 2 1 a_2x2 (b_2x2, \<lambda>p. Fin 0))) 0 1
      = Fin (- (5 / 8))"
    by (simp add: kernel_2x2 c11_def)
  show ?thesis
    by (intro conjI cfg_2x2_layout th val)
qed

section \<open>The trsm\_u micro-kernel: the identity\<close>

text \<open>
  C8. When the packed block \<open>A\<close> stores the identity (every stored diagonal entry
  is 1, every entry above the diagonal is a zero) and every entry of the input block
  \<open>B\<close> is a finite double, the output \<open>C\<close> equals \<open>B\<close>, and the packed
  \<open>B\<close> is written back unchanged. The rows of the packed \<open>B\<close> do not overlap
  (\<open>bli_dnr \<le> bli_dpacknr\<close>) and the strides of \<open>C\<close> address distinct
  elements.
\<close>

theorem trsm_u_identity:
  assumes le: "bli_dnr cfg \<le> bli_dpacknr cfg"
    and inj: "inj_on (\<lambda>(i, j). c + int i * rs_c + int j * cs_c) ({..<bli_dmr cfg} \<times> {..<bli_dnr cfg})"
    and idm: "\<forall>i<bli_dmr cfg. a11 cfg a amem i i = Fin 1 \<and>
                (\<forall>l<bli_dmr cfg. i < l \<longrightarrow> is_zero (a11 cfg a amem i l))"
    and fin: "\<forall>i<bli_dmr cfg. \<forall>j<bli_dnr cfg. finite_double (b11 cfg b b0 i j)"
    and ij: "i < bli_dmr cfg" "j < bli_dnr cfg"
  shows "c11 c rs_c cs_c (snd (bli_dtrsm_u_opt_mxn cfg a b c rs_c cs_c amem (b0, c0))) i j =
           b11 cfg b b0 i j \<and>
         b11 cfg b (fst (bli_dtrsm_u_opt_mxn cfg a b c rs_c cs_c amem (b0, c0))) i j =
           b11 cfg b b0 i j"
proof -
  have "back_subst bli_d (a11 cfg a amem) (b11 cfg b b0) (bli_dmr cfg) i j = b11 cfg b b0 i j"
    by (rule back_subst_identity) (use idm fin ij in auto)
  then show ?thesis
    using trsm_u_result [OF le ij, where sc = bli_d and a = a and b = b and c = c and rs_c = rs_c
        and cs_c = cs_c and amem = amem and ?b0.0 = b0 and ?c0.0 = c0] inj
    by (simp add: bli_dtrsm_u_opt_mxn_def bli_dcopys_def)
qed

theorem trsm_u_identity_witness:
  "bli_dnr cfg_2x2 \<le> bli_dpacknr cfg_2x2 \<and>
   inj_on (\<lambda>(i, j). 0 + int i * 2 + int j * 1) ({..<bli_dmr cfg_2x2} \<times> {..<bli_dnr cfg_2x2}) \<and>
   a11 cfg_2x2 0 id_2x2 0 0 = Fin 1 \<and> is_zero (a11 cfg_2x2 0 id_2x2 0 1) \<and>
   a11 cfg_2x2 0 id_2x2 1 1 = Fin 1 \<and> a11 cfg_2x2 0 id_2x2 1 0 = Fin 9 \<and>
   finite_double (b11 cfg_2x2 0 b_2x2 0 0) \<and> finite_double (b11 cfg_2x2 0 b_2x2 0 1) \<and>
   finite_double (b11 cfg_2x2 0 b_2x2 1 0) \<and> finite_double (b11 cfg_2x2 0 b_2x2 1 1) \<and>
   c11 0 2 1 (snd (bli_dtrsm_u_opt_mxn cfg_2x2 0 0 0 2 1 id_2x2 (b_2x2, \<lambda>p. Fin 0))) 0 1 =
     b11 cfg_2x2 0 b_2x2 0 1 \<and>
   b11 cfg_2x2 0 (fst (bli_dtrsm_u_opt_mxn cfg_2x2 0 0 0 2 1 id_2x2 (b_2x2, \<lambda>p. Fin 0))) 0 1 =
     b11 cfg_2x2 0 b_2x2 0 1 \<and>
   b11 cfg_2x2 0 b_2x2 0 1 = Fin 1"
proof -
  have idm: "\<forall>i<bli_dmr cfg_2x2. a11 cfg_2x2 0 id_2x2 i i = Fin 1 \<and>
                (\<forall>l<bli_dmr cfg_2x2. i < l \<longrightarrow> is_zero (a11 cfg_2x2 0 id_2x2 i l))"
    by (simp add: cfg_2x2_def a11_def id_2x2_def is_zero_def less_Suc_eq numeral_2_eq_2)
  have f: "finite_double (b11 cfg_2x2 0 b_2x2 i j)" if "i < 2" "j < 2" for i j
    unfolding b11_def b_2x2_def by (rule finite_of_int) (use that in \<open>simp add: cfg_2x2_def\<close>)
  then have fin: "\<forall>i<bli_dmr cfg_2x2. \<forall>j<bli_dnr cfg_2x2. finite_double (b11 cfg_2x2 0 b_2x2 i j)"
    by (simp add: cfg_2x2_def)
  have ij: "0 < bli_dmr cfg_2x2" "1 < bli_dnr cfg_2x2"
    by (simp_all add: cfg_2x2_def)
  note th = trsm_u_identity [OF cfg_2x2_layout idm fin ij, of "\<lambda>p. Fin 0"]
  have vals: "a11 cfg_2x2 0 id_2x2 0 0 = Fin 1" "is_zero (a11 cfg_2x2 0 id_2x2 0 1)"
    "a11 cfg_2x2 0 id_2x2 1 1 = Fin 1" "a11 cfg_2x2 0 id_2x2 1 0 = Fin 9"
    "b11 cfg_2x2 0 b_2x2 0 1 = Fin 1"
    by (simp_all add: cfg_2x2_def a11_def b11_def id_2x2_def b_2x2_def is_zero_def)
  have fs: "finite_double (b11 cfg_2x2 0 b_2x2 0 0)" "finite_double (b11 cfg_2x2 0 b_2x2 0 1)"
    "finite_double (b11 cfg_2x2 0 b_2x2 1 0)" "finite_double (b11 cfg_2x2 0 b_2x2 1 1)"
    by (simp_all add: f)
  show ?thesis
    by (intro conjI cfg_2x2_layout vals fs th [THEN conjunct1] th [THEN conjunct2])
qed

text \<open>
  For an input block with an entry that is not finite the claim fails: with the identity
  stored and \<open>B = [[1, 1], [\<infinity>, 1]]\<close>, row 0 accumulates
  \<open>0 * \<infinity>\<close>, which is NaN, so the kernel returns NaN in \<open>C[0,0]\<close>, where
  \<open>B[0,0]\<close> is 1.
\<close>

theorem trsm_u_identity_counterexample:
  "a11 cfg_2x2 0 id_2x2 0 0 = Fin 1 \<and> a11 cfg_2x2 0 id_2x2 1 1 = Fin 1 \<and>
   a11 cfg_2x2 0 id_2x2 0 1 = Fin 0 \<and>
   b11 cfg_2x2 0 b_inf 1 0 = PosInf \<and> b11 cfg_2x2 0 b_inf 0 0 = Fin 1 \<and>
   c11 0 2 1 (snd (bli_dtrsm_u_opt_mxn cfg_2x2 0 0 0 2 1 id_2x2 (b_inf, \<lambda>p. Fin 0))) 0 0 = NaN \<and>
   c11 0 2 1 (snd (bli_dtrsm_u_opt_mxn cfg_2x2 0 0 0 2 1 id_2x2 (b_inf, \<lambda>p. Fin 0))) 0 0 \<noteq>
     b11 cfg_2x2 0 b_inf 0 0"
  by (simp add: kernel_2x2_inf) (simp add: cfg_2x2_def a11_def b11_def id_2x2_def b_inf_def)

section \<open>The trsm\_u micro-kernel: the unstored triangle\<close>

text \<open>
  C9. The micro-kernel reads the packed block \<open>A\<close> only at its diagonal and above
  it: two packed blocks that agree on every \<open>A[i,l]\<close> with \<open>i \<le> l < m\<close> give
  the same result, whatever they hold below the diagonal.
\<close>

theorem trsm_u_reads_upper_only:
  assumes "\<forall>i l. i \<le> l \<and> l < bli_dmr cfg \<longrightarrow> a11 cfg a amem i l = a11 cfg a amem' i l"
  shows "bli_dtrsm_u_opt_mxn cfg a b c rs_c cs_c amem s =
         bli_dtrsm_u_opt_mxn cfg a b c rs_c cs_c amem' s"
  unfolding bli_dtrsm_u_opt_mxn_def trsm_u_opt_mxn_def
  by (rule for_loop_cong) (rule trsm_u_iter_a_cong, use assms in auto)

theorem trsm_u_reads_upper_only_witness:
  "a11 cfg_2x2 0 a_2x2 0 0 = a11 cfg_2x2 0 (a_2x2(1 := Fin 0)) 0 0 \<and>
   a11 cfg_2x2 0 a_2x2 0 1 = a11 cfg_2x2 0 (a_2x2(1 := Fin 0)) 0 1 \<and>
   a11 cfg_2x2 0 a_2x2 1 1 = a11 cfg_2x2 0 (a_2x2(1 := Fin 0)) 1 1 \<and>
   a11 cfg_2x2 0 a_2x2 1 0 = Fin 9 \<and> a11 cfg_2x2 0 (a_2x2(1 := Fin 0)) 1 0 = Fin 0 \<and>
   bli_dtrsm_u_opt_mxn cfg_2x2 0 0 0 2 1 a_2x2 (b_2x2, \<lambda>p. Fin 0) =
   bli_dtrsm_u_opt_mxn cfg_2x2 0 0 0 2 1 (a_2x2(1 := Fin 0)) (b_2x2, \<lambda>p. Fin 0)"
proof -
  have "int i + int l * 2 \<noteq> 1" if "i \<le> l" for i l
    using that by presburger
  then have up: "\<forall>i l. i \<le> l \<and> l < bli_dmr cfg_2x2 \<longrightarrow>
      a11 cfg_2x2 0 a_2x2 i l = a11 cfg_2x2 0 (a_2x2(1 := Fin 0)) i l"
    by (simp add: a11_def cfg_2x2_def)
  have vals: "a11 cfg_2x2 0 a_2x2 0 0 = a11 cfg_2x2 0 (a_2x2(1 := Fin 0)) 0 0"
    "a11 cfg_2x2 0 a_2x2 0 1 = a11 cfg_2x2 0 (a_2x2(1 := Fin 0)) 0 1"
    "a11 cfg_2x2 0 a_2x2 1 1 = a11 cfg_2x2 0 (a_2x2(1 := Fin 0)) 1 1"
    "a11 cfg_2x2 0 a_2x2 1 0 = Fin 9" "a11 cfg_2x2 0 (a_2x2(1 := Fin 0)) 1 0 = Fin 0"
    by (simp_all add: a11_def cfg_2x2_def a_2x2_def)
  show ?thesis
    by (intro conjI vals trsm_u_reads_upper_only [OF up])
qed

section \<open>Empty problems and untouched memory\<close>

text \<open>
  C7. \<open>setv\<close> with \<open>n = 0\<close> returns the memory as it was; \<open>setv\<close> never
  writes an address that is not one of the \<open>n\<close> addressed elements, so with stride
  2 the interleaved elements keep their values; and the micro-kernel with \<open>m = 0\<close>
  or \<open>n = 0\<close> returns both the packed block and the output matrix as they were.
\<close>

theorem noop_and_frame:
  fixes cast :: "'b::zero \<Rightarrow> 'x::zero" and m :: "'x mem"
  shows "setv_unb_var1 cast 0 beta x incx m = m \<and>
         (p \<notin> vec_addrs n x incx \<longrightarrow> setv_unb_var1 cast n beta x incx m p = m p) \<and>
         setv_unb_var1 cast n beta x 2 m (x + 2 * int k + 1) = m (x + 2 * int k + 1) \<and>
         (bli_dmr cfg = 0 \<or> bli_dnr cfg = 0 \<longrightarrow>
            bli_dtrsm_u_opt_mxn cfg a b c rs_c cs_c amem s = s)"
proof (intro conjI impI)
  show "setv_unb_var1 cast 0 beta x incx m = m"
    by (simp add: setv_unb_var1_def bli_zero_dim1_def)
  show "setv_unb_var1 cast n beta x incx m p = m p" if "p \<notin> vec_addrs n x incx"
    using that by (rule setv_untouched)
  show "setv_unb_var1 cast n beta x 2 m (x + 2 * int k + 1) = m (x + 2 * int k + 1)"
    by (rule setv_untouched) (rule odd_not_addressed)
  show "bli_dtrsm_u_opt_mxn cfg a b c rs_c cs_c amem s = s" if "bli_dmr cfg = 0 \<or> bli_dnr cfg = 0"
    unfolding bli_dtrsm_u_opt_mxn_def using that by (rule trsm_u_empty)
qed

theorem noop_and_frame_witness:
  "setv_unb_var1 real_of_int 0 (0::int) 0 2 (\<lambda>p. 7) = (\<lambda>p. 7) \<and>
   (1::int) \<notin> vec_addrs 4 0 2 \<and>
   setv_unb_var1 real_of_int 4 (0::int) 0 2 (\<lambda>p. 7) 1 = 7 \<and>
   setv_unb_var1 real_of_int 4 (0::int) 0 2 (\<lambda>p. 7) 3 = 7 \<and>
   bli_dmr (cfg_2x2\<lparr>bli_dnr := 0\<rparr>) = 2 \<and> bli_dnr (cfg_2x2\<lparr>bli_dnr := 0\<rparr>) = 0 \<and>
   bli_dtrsm_u_opt_mxn (cfg_2x2\<lparr>bli_dnr := 0\<rparr>) 0 0 0 2 1 a_2x2 (b_2x2, \<lambda>p. Fin 0) =
     (b_2x2, \<lambda>p. Fin 0)"
proof -
  note th = noop_and_frame [of real_of_int "0::int" 0 2 "\<lambda>p. 7" 1 4 1 "cfg_2x2\<lparr>bli_dnr := 0\<rparr>"
      0 0 0 2 1 a_2x2 "(b_2x2, \<lambda>p. Fin 0)"]
  have notin: "(1::int) \<notin> vec_addrs 4 0 2"
    using odd_not_addressed [of 0 0 4] by simp
  have z: "bli_dmr (cfg_2x2\<lparr>bli_dnr := 0\<rparr>) = 2" "bli_dnr (cfg_2x2\<lparr>bli_dnr := 0\<rparr>) = 0"
    by (simp_all add: cfg_2x2_def)
  from th notin z show ?thesis
    by simp
qed

section \<open>The residual check of the syrk test: what it returns\<close>



end

